theory Spec2Isabelle
  imports Main
begin

section \<open>Go strings and slices\<close>

text \<open>
  A Go string is a sequence of bytes: \<open>string\<close>.  The separators the program uses
  (\<open>","\<close> and \<open>"/"\<close>) are single bytes, so a separator is a \<open>char\<close>.

  \<open>strings.Split(s, sep)\<close> returns every substring between separators; the result is never
  empty, and \<open>Split("", sep)\<close> is the one-element slice holding the empty string.
\<close>

fun strings_Split :: "string \<Rightarrow> char \<Rightarrow> string list" where
  "strings_Split [] sep = [[]]"
| "strings_Split (c # cs) sep =
     (if c = sep then [] # strings_Split cs sep
      else (case strings_Split cs sep of
              [] \<Rightarrow> [[c]]
            | t # ts \<Rightarrow> (c # t) # ts))"

text \<open>
  \<open>strings.SplitN(s, sep, n)\<close> for \<open>n > 0\<close>: at most \<open>n\<close> substrings, the last one being the
  unsplit remainder; \<open>n = 0\<close> gives the nil slice.
\<close>

fun strings_SplitN :: "string \<Rightarrow> char \<Rightarrow> nat \<Rightarrow> string list" where
  "strings_SplitN s sep 0 = []"
| "strings_SplitN s sep (Suc 0) = [s]"
| "strings_SplitN s sep (Suc (Suc n)) =
     (if sep \<in> set s
      then takeWhile (\<lambda>c. c \<noteq> sep) s
           # strings_SplitN (tl (dropWhile (\<lambda>c. c \<noteq> sep) s)) sep (Suc n)
      else [s])"

fun strings_Join :: "string list \<Rightarrow> char \<Rightarrow> string" where
  "strings_Join [] sep = []"
| "strings_Join [x] sep = x"
| "strings_Join (x # y # ys) sep = x @ sep # strings_Join (y # ys) sep"

text \<open>
  Modelled from the spec: package \<open>helpers\<close> is not among the sources.
  \<open>StringSliceContains(s, slice)\<close> is the membership test behind \<open>Contains\<close> and the
  "no-op if already present" of \<open>Encode\<close>.
\<close>

definition StringSliceContains :: "string \<Rightarrow> string list \<Rightarrow> bool" where
  "StringSliceContains s slice = (s \<in> set slice)"

text \<open>
  Modelled from the spec: package \<open>helpers\<close> is not among the sources.
  \<open>RemoveItemFromStringSlice(item, slice)\<close> is the "idempotent removal" of \<open>Remove\<close>: the slice
  without the item, the other elements in their order.
\<close>

definition RemoveItemFromStringSlice :: "string \<Rightarrow> string list \<Rightarrow> string list" where
  "RemoveItemFromStringSlice item slice = filter (\<lambda>s. s \<noteq> item) slice"

section \<open>Objects, owners and the ownership annotation (package watches)\<close>

text \<open>\<open>types.NamespacedName\<close>.\<close>

record NamespacedName =
  nn_Namespace :: string
  nn_Name :: string

text \<open>
  \<open>client.Object\<close>: anything carrying object metadata.  A Go map may be nil, and the code
  tests the annotations for nil, so they are an \<open>option\<close>; labels are only ever read, where
  nil and the empty map behave alike.  Any record extending \<open>ObjectMeta\<close> is an object.
\<close>

record ObjectMeta =
  om_Name :: string
  om_Namespace :: string
  om_Labels :: "string \<rightharpoonup> string"
  om_Annotations :: "(string \<rightharpoonup> string) option"

text \<open>Reading a Go map: a missing key (and any key of a nil map) reads as the empty string.\<close>

definition map_index :: "(string \<rightharpoonup> string) \<Rightarrow> string \<Rightarrow> string" where
  "map_index m k = (case m k of None \<Rightarrow> [] | Some v \<Rightarrow> v)"

definition NamespacedNameAnnotation :: string where
  "NamespacedNameAnnotation = ''riskified.com/dynamic-environment''"

text \<open>\<open>reconcile.Request\<close> wraps a \<open>NamespacedName\<close>; the queue is the sequence of items handed
  to \<open>q.Add\<close>, in call order (what the queue does with repeated items is its own matter).\<close>

type_synonym Request = NamespacedName

type_synonym workqueue = "Request list"

text \<open>A run-time panic: indexing a slice of the given length at the given index.\<close>

datatype panic = IndexOutOfRange nat nat

text \<open>
  The body of the \<open>range dynamicEnvs\<close> loop of \<open>addToQueue\<close>.  \<open>values[0]\<close> and \<open>values[1]\<close>
  are read from the result of \<open>SplitN\<close>; a slice shorter than two elements makes the index
  expression panic, and the requests added before stay in the queue.
\<close>

fun addToQueue_loop :: "string list \<Rightarrow> workqueue \<Rightarrow> panic option \<times> workqueue" where
  "addToQueue_loop [] q = (None, q)"
| "addToQueue_loop (env # envs) q =
     (if env \<noteq> [] then
        (case strings_SplitN env (CHR ''/'') 2 of
           v0 # v1 # _ \<Rightarrow>
             addToQueue_loop envs (q @ [\<lparr>nn_Namespace = v0, nn_Name = v1\<rparr>])
         | values \<Rightarrow> (Some (IndexOutOfRange 1 (length values)), q))
      else addToQueue_loop envs q)"

definition addToQueue :: "'a ObjectMeta_scheme \<Rightarrow> workqueue \<Rightarrow> panic option \<times> workqueue" where
  "addToQueue object q =
     (case om_Annotations object of
        Some annotations \<Rightarrow>
          addToQueue_loop
            (strings_Split (map_index annotations NamespacedNameAnnotation) (CHR '','')) q
      | None \<Rightarrow> (None, q))"

text \<open>The four event handlers of \<open>EnqueueRequestForAnnotation\<close>.\<close>

record 'a UpdateEvent =
  ObjectOld :: "'a ObjectMeta_scheme"
  ObjectNew :: "'a ObjectMeta_scheme"

definition Create :: "'a ObjectMeta_scheme \<Rightarrow> workqueue \<Rightarrow> panic option \<times> workqueue" where
  "Create evt_Object q = addToQueue evt_Object q"

definition Update :: "'a UpdateEvent \<Rightarrow> workqueue \<Rightarrow> panic option \<times> workqueue" where
  "Update evt q =
     (case addToQueue (ObjectNew evt) q of
        (Some p, q') \<Rightarrow> (Some p, q')
      | (None, q') \<Rightarrow> addToQueue (ObjectOld evt) q')"

definition Delete :: "'a ObjectMeta_scheme \<Rightarrow> workqueue \<Rightarrow> panic option \<times> workqueue" where
  "Delete evt_Object q = addToQueue evt_Object q"

definition Generic :: "'a ObjectMeta_scheme \<Rightarrow> workqueue \<Rightarrow> panic option \<times> workqueue" where
  "Generic evt_Object q = addToQueue evt_Object q"

text \<open>\<open>fmt.Sprintf("%s/%s", owner.Namespace, owner.Name)\<close>.\<close>

definition owner_token :: "NamespacedName \<Rightarrow> string" where
  "owner_token owner = nn_Namespace owner @ CHR ''/'' # nn_Name owner"

text \<open>The annotations the functions below work on: a fresh empty map when the object has none.\<close>

definition annotations_or_empty :: "'a ObjectMeta_scheme \<Rightarrow> (string \<rightharpoonup> string)" where
  "annotations_or_empty object =
     (case om_Annotations object of None \<Rightarrow> Map.empty | Some annotations \<Rightarrow> annotations)"

definition AddToAnnotation :: "NamespacedName \<Rightarrow> 'a ObjectMeta_scheme \<Rightarrow> 'a ObjectMeta_scheme" where
  "AddToAnnotation owner object =
     (let annotations = annotations_or_empty object;
          existingDynamicEnvs =
            strings_Split (map_index annotations NamespacedNameAnnotation) (CHR '','');
          currentDynamicEnv = owner_token owner;
          existingDynamicEnvs' =
            (if length existingDynamicEnvs = 1 \<and> existingDynamicEnvs ! 0 = []
             then existingDynamicEnvs[0 := currentDynamicEnv]
             else if \<not> StringSliceContains currentDynamicEnv existingDynamicEnvs
             then existingDynamicEnvs @ [currentDynamicEnv]
             else existingDynamicEnvs)
      in object\<lparr>om_Annotations :=
           Some (annotations(NamespacedNameAnnotation \<mapsto>
                   strings_Join existingDynamicEnvs' (CHR '','')))\<rparr>)"

definition RemoveFromAnnotation :: "NamespacedName \<Rightarrow> 'a ObjectMeta_scheme \<Rightarrow> 'a ObjectMeta_scheme" where
  "RemoveFromAnnotation owner object =
     (let annotations = annotations_or_empty object;
          existingDynamicEnvs =
            strings_Split (map_index annotations NamespacedNameAnnotation) (CHR '','');
          currentDynamicEnv = owner_token owner;
          existingDynamicEnvs' = RemoveItemFromStringSlice currentDynamicEnv existingDynamicEnvs
      in object\<lparr>om_Annotations :=
           Some (annotations(NamespacedNameAnnotation \<mapsto>
                   strings_Join existingDynamicEnvs' (CHR '','')))\<rparr>)"

definition ContainsAnnotation :: "NamespacedName \<Rightarrow> 'a ObjectMeta_scheme \<Rightarrow> bool" where
  "ContainsAnnotation searchItem object =
     (case om_Annotations object of
        None \<Rightarrow> False
      | Some annotations \<Rightarrow>
          StringSliceContains (owner_token searchItem)
            (strings_Split (map_index annotations NamespacedNameAnnotation) (CHR '','')))"

section \<open>Routing objects, the store and the status handler\<close>

text \<open>\<open>istioapi.Subset\<close> and \<open>istionetwork.DestinationRule\<close>: the fields the handler reads or
  writes.  A \<open>DestinationRule\<close> is an object: it extends \<open>ObjectMeta\<close>.\<close>

record Subset =
  ss_Name :: string
  ss_Labels :: "string \<rightharpoonup> string"

record DestinationRule = ObjectMeta +
  Host :: string
  Subsets :: "Subset list"

datatype LifeCycleStatus = Missing | Initializing | Running | IgnoredMissingDR

record ResourceStatus =
  rs_Name :: string
  rs_Namespace :: string
  rs_Status :: LifeCycleStatus

text \<open>
  Errors.  \<open>IgnoredMissing\<close> is the sentinel of "no baseline with the default version"
  (its type is declared in package \<open>handlers\<close>, outside the sources: an error value with
  no content);
  \<open>NotFound\<close>, \<open>AlreadyExists\<close> and \<open>StoreFailure\<close> are what the store answers;
  \<open>StatusFailure\<close> is what the status handler answers.  \<open>Errorf\<close> is \<open>fmt.Errorf\<close>
  without \<open>%w\<close> and \<open>Wrapf\<close> is \<open>fmt.Errorf\<close> with \<open>%w\<close>: both keep the format string of
  the source (its arguments are not rendered), \<open>Wrapf\<close> also the wrapped error.
\<close>

datatype err =
    IgnoredMissing
  | NotFound
  | AlreadyExists
  | StoreFailure string
  | StatusFailure string
  | Errorf string
  | Wrapf string err

text \<open>\<open>goerrors.As(err, &IgnoredMissing{})\<close>: some error of the \<open>%w\<close> chain is the sentinel.\<close>

fun errors_As_IgnoredMissing :: "err \<Rightarrow> bool" where
  "errors_As_IgnoredMissing IgnoredMissing = True"
| "errors_As_IgnoredMissing (Wrapf msg e) = errors_As_IgnoredMissing e"
| "errors_As_IgnoredMissing e = False"

text \<open>\<open>errors.IsNotFound\<close> of the API machinery, on what the store answers.\<close>

definition IsNotFound :: "err \<Rightarrow> bool" where
  "IsNotFound e = (e = NotFound)"

text \<open>
  The cluster the handler talks to: the routing objects of the store in list order, the
  status entries recorded so far, and for each operation the failure (if any) the store
  or the status handler answers to a given request.  With no state change from outside,
  the same request fails the same way.
\<close>

record cluster =
  objects :: "DestinationRule list"
  status_entries :: "(string \<times> ResourceStatus) list"
  get_failure :: "NamespacedName \<Rightarrow> string option"
  list_failure :: "string \<Rightarrow> string option"
  create_failure :: "DestinationRule \<Rightarrow> string option"
  status_failure :: "string \<Rightarrow> ResourceStatus \<Rightarrow> string option"

definition has_key :: "NamespacedName \<Rightarrow> DestinationRule \<Rightarrow> bool" where
  "has_key key d = (om_Name d = nn_Name key \<and> om_Namespace d = nn_Namespace key)"

text \<open>
  Modelled from the spec: the store is an external collaborator, reached through
  \<open>client.Client\<close>.  \<open>Get(key) -> object | NotFound\<close>.
\<close>

definition client_Get :: "cluster \<Rightarrow> NamespacedName \<Rightarrow> err + DestinationRule" where
  "client_Get w key =
     (case get_failure w key of
        Some msg \<Rightarrow> Inl (StoreFailure msg)
      | None \<Rightarrow>
          (case find (has_key key) (objects w) of
             None \<Rightarrow> Inl NotFound
           | Some d \<Rightarrow> Inr d))"

text \<open>
  Modelled from the spec: \<open>List(namespace, filter) -> sequence of object\<close>, the candidates
  "listed from the store scoped to namespace", in the store's list order.
\<close>

definition client_List :: "cluster \<Rightarrow> string \<Rightarrow> err + DestinationRule list" where
  "client_List w namespace =
     (case list_failure w namespace of
        Some msg \<Rightarrow> Inl (StoreFailure msg)
      | None \<Rightarrow> Inr (filter (\<lambda>d. om_Namespace d = namespace) (objects w)))"

text \<open>
  Modelled from the spec: \<open>Create(object) -> ok | AlreadyExists | Error\<close>.  A created object
  is listed after the objects already stored.
\<close>

definition client_Create :: "cluster \<Rightarrow> DestinationRule \<Rightarrow> err + cluster" where
  "client_Create w d =
     (case create_failure w d of
        Some msg \<Rightarrow> Inl (StoreFailure msg)
      | None \<Rightarrow>
          (if list_ex (has_key \<lparr>nn_Namespace = om_Namespace d, nn_Name = om_Name d\<rparr>) (objects w)
           then Inl AlreadyExists
           else Inr (w\<lparr>objects := objects w @ [d]\<rparr>)))"

text \<open>
  Modelled from the spec: \<open>DynamicEnvStatusHandler\<close> is not among the sources.
  \<open>AddDestinationRuleStatusEntry(subset, status)\<close> records one \<open>{name, namespace, status}\<close>
  entry for the subset, or fails.
\<close>

definition AddDestinationRuleStatusEntry :: "cluster \<Rightarrow> string \<Rightarrow> ResourceStatus \<Rightarrow> err + cluster" where
  "AddDestinationRuleStatusEntry w subsetName rs =
     (case status_failure w subsetName rs of
        Some msg \<Rightarrow> Inl (StatusFailure msg)
      | None \<Rightarrow> Inr (w\<lparr>status_entries := status_entries w @ [(subsetName, rs)]\<rparr>))"

text \<open>The fully qualified form of a short service name: \<open>name.namespace\<close>.\<close>

definition namespaced_host :: "string \<Rightarrow> string \<Rightarrow> string" where
  "namespaced_host name namespace = name @ CHR ''.'' # namespace"

text \<open>
  Modelled from the spec: \<open>helpers.MatchNamespacedHost\<close> is not among the sources.
  "A candidate matches serviceHost if its declared host field equals serviceHost literally,
  OR if one of the two strings is the short name and the other is name.namespace for the
  given namespace -- both directions must be checked."  The spec names one namespace, the
  one the candidates are listed from; the candidate's own namespace is the fourth argument
  of the call and is not consulted.
\<close>

definition MatchNamespacedHost :: "string \<Rightarrow> string \<Rightarrow> string \<Rightarrow> string \<Rightarrow> bool" where
  "MatchNamespacedHost hostname namespace matchedHost matchedNamespace =
     (matchedHost = hostname
      \<or> matchedHost = namespaced_host hostname namespace
      \<or> hostname = namespaced_host matchedHost namespace)"

section \<open>The DestinationRule handler (package handlers)\<close>

text \<open>
  The handler's configuration and its two accumulators.  The embedded client and the status
  handler are the \<open>cluster\<close>; the logger has no effect on any result, and the context is
  only passed on to the store.
\<close>

record DestinationRuleHandler =
  UniqueName :: string
  UniqueVersion :: string
  Namespace :: string
  VersionLabel :: string
  DefaultVersion :: string
  ServiceHosts :: "string list"
  Owner :: NamespacedName
  ignoredMissing :: "string list"
  activeHosts :: "string list"

definition calculateDRName :: "DestinationRuleHandler \<Rightarrow> string \<Rightarrow> string" where
  "calculateDRName h serviceHost = UniqueName h @ ''-'' @ serviceHost"

definition setStatus ::
  "DestinationRuleHandler \<Rightarrow> cluster \<Rightarrow> string \<Rightarrow> string \<Rightarrow> LifeCycleStatus \<Rightarrow> err + cluster" where
  "setStatus h w subsetName drName status =
     AddDestinationRuleStatusEntry w subsetName
       \<lparr>rs_Name = drName, rs_Namespace = Namespace h, rs_Status = status\<rparr>"

text \<open>The test of the two nested loops of \<open>locateDestinationRuleByHostname\<close>: the candidate
  matches the host and one of its subsets carries the default version.\<close>

definition is_default_for :: "DestinationRuleHandler \<Rightarrow> string \<Rightarrow> DestinationRule \<Rightarrow> bool" where
  "is_default_for h hostName dr =
     (MatchNamespacedHost hostName (Namespace h) (Host dr) (om_Namespace dr)
      \<and> list_ex (\<lambda>s. map_index (ss_Labels s) (VersionLabel h) = DefaultVersion h) (Subsets dr))"

definition locateDestinationRuleByHostname ::
  "DestinationRuleHandler \<Rightarrow> cluster \<Rightarrow> string \<Rightarrow> err + DestinationRule" where
  "locateDestinationRuleByHostname h w hostName =
     (case client_List w (Namespace h) of
        Inl e \<Rightarrow> Inl (Wrapf ''error listing existing destination rules: %w'' e)
      | Inr destinationRules \<Rightarrow>
          (case find (is_default_for h hostName) destinationRules of
             Some dr \<Rightarrow> Inr dr
           | None \<Rightarrow> Inl IgnoredMissing))"

definition generateOverridingDestinationRule ::
  "DestinationRuleHandler \<Rightarrow> cluster \<Rightarrow> string \<Rightarrow> err + DestinationRule" where
  "generateOverridingDestinationRule h w serviceHost =
     (case locateDestinationRuleByHostname h w serviceHost of
        Inl e \<Rightarrow> Inl (Wrapf ''locating default destination rule for '%s': %w'' e)
      | Inr originalDestinationRule \<Rightarrow>
          Inr \<lparr>om_Name = calculateDRName h serviceHost,
               om_Namespace = Namespace h,
               om_Labels = [VersionLabel h \<mapsto> UniqueVersion h],
               om_Annotations = None,
               Host = Host originalDestinationRule,
               Subsets = [\<lparr>ss_Name = UniqueVersion h,
                           ss_Labels = [VersionLabel h \<mapsto> UniqueVersion h]\<rparr>]\<rparr>)"

definition createOverridingDestinationRule ::
  "DestinationRuleHandler \<Rightarrow> cluster \<Rightarrow> string \<Rightarrow> string \<Rightarrow> err option \<times> cluster" where
  "createOverridingDestinationRule h w drName serviceHost =
     (case generateOverridingDestinationRule h w serviceHost of
        Inl e \<Rightarrow> (Some (Wrapf ''creating overriding destination rule: %w'' e), w)
      | Inr newDestinationRule \<Rightarrow>
          (case client_Create w (AddToAnnotation (Owner h) newDestinationRule) of
             Inl e \<Rightarrow>
               (Some (Wrapf ''error deploying new destination rule version=%q service-host=%q: %w'' e), w)
           | Inr w' \<Rightarrow> (None, w')))"

definition createMissingDestinationRule ::
  "DestinationRuleHandler \<Rightarrow> cluster \<Rightarrow> string \<Rightarrow> string
     \<Rightarrow> err option \<times> DestinationRuleHandler \<times> cluster" where
  "createMissingDestinationRule h w destinationRuleName serviceHost =
     (case setStatus h w (UniqueName h) destinationRuleName Initializing of
        Inl e \<Rightarrow>
          (Some (Wrapf ''failed to update status (prior to launching destination rule: %s): %w'' e),
           h, w)
      | Inr w1 \<Rightarrow>
          (case createOverridingDestinationRule h w1 destinationRuleName serviceHost of
             (Some e, w2) \<Rightarrow>
               (if errors_As_IgnoredMissing e
                then (None, h\<lparr>ignoredMissing := ignoredMissing h @ [serviceHost]\<rparr>, w2)
                else (Some (Wrapf ''creating destination rule for '%s': %w'' e), h, w2))
           | (None, w2) \<Rightarrow> (None, h\<lparr>activeHosts := activeHosts h @ [serviceHost]\<rparr>, w2)))"

text \<open>
  The body of the \<open>range h.ServiceHosts\<close> loop of \<open>Handle\<close>, for one host.  \<open>Some e\<close> is
  \<open>return e\<close>; \<open>None\<close> is the end of the iteration (by \<open>continue\<close> or by reaching the end of
  the body).  Either way the handler and the cluster keep what the visit did to them.
\<close>

definition Handle_host ::
  "DestinationRuleHandler \<Rightarrow> cluster \<Rightarrow> string
     \<Rightarrow> err option \<times> DestinationRuleHandler \<times> cluster" where
  "Handle_host h w serviceHost =
     (let drName = calculateDRName h serviceHost in
      case client_Get w \<lparr>nn_Namespace = Namespace h, nn_Name = drName\<rparr> of
        Inl e \<Rightarrow>
          (if IsNotFound e then
             (case createMissingDestinationRule h w drName serviceHost of
                (Some e', h', w') \<Rightarrow> (Some e', h', w')
              | (None, h', w') \<Rightarrow> (None, h', w'))
           else
             (Some (Wrapf ''error locating existing destination rule by name (%s): %w'' e), h, w))
      | Inr found \<Rightarrow> (None, h\<lparr>activeHosts := activeHosts h @ [serviceHost]\<rparr>, w))"

text \<open>The loop itself: the hosts still to visit, in input order.  An error ends it.\<close>

fun Handle_loop ::
  "string list \<Rightarrow> DestinationRuleHandler \<Rightarrow> cluster
     \<Rightarrow> err option \<times> DestinationRuleHandler \<times> cluster" where
  "Handle_loop [] h w = (None, h, w)"
| "Handle_loop (serviceHost # rest) h w =
     (case Handle_host h w serviceHost of
        (Some e, h', w') \<Rightarrow> (Some e, h', w')
      | (None, h', w') \<Rightarrow> Handle_loop rest h' w')"

definition Handle ::
  "DestinationRuleHandler \<Rightarrow> cluster \<Rightarrow> err option \<times> DestinationRuleHandler \<times> cluster" where
  "Handle h w =
     (case Handle_loop (ServiceHosts h) h w of
        (Some e, h', w') \<Rightarrow> (Some e, h', w')
      | (None, h', w') \<Rightarrow>
          (if length (activeHosts h') = 0
           then (Some (Errorf ''no base destination rules were found for subset: %s''), h', w')
           else (None, h', w')))"

definition genStatus :: "DestinationRuleHandler \<Rightarrow> string \<Rightarrow> LifeCycleStatus \<Rightarrow> ResourceStatus" where
  "genStatus h name s = \<lparr>rs_Name = name, rs_Namespace = Namespace h, rs_Status = s\<rparr>"

text \<open>The loop of \<open>GetStatus\<close>, with the statuses appended so far.\<close>

fun GetStatus_loop ::
  "string list \<Rightarrow> DestinationRuleHandler \<Rightarrow> cluster \<Rightarrow> ResourceStatus list
     \<Rightarrow> ResourceStatus list \<times> err option" where
  "GetStatus_loop [] h w statuses = (statuses, None)"
| "GetStatus_loop (sh # rest) h w statuses =
     (let drName = calculateDRName h sh in
      case client_Get w \<lparr>nn_Namespace = Namespace h, nn_Name = drName\<rparr> of
        Inl e \<Rightarrow>
          (if IsNotFound e then
             (if StringSliceContains sh (ignoredMissing h)
              then GetStatus_loop rest h w (statuses @ [genStatus h drName IgnoredMissingDR])
              else GetStatus_loop rest h w (statuses @ [genStatus h drName Missing]))
           else
             (statuses,
              Some (Wrapf ''error locating existing destination rule by name (%s): %w'' e)))
      | Inr found \<Rightarrow> GetStatus_loop rest h w (statuses @ [genStatus h drName Running]))"

definition GetStatus :: "DestinationRuleHandler \<Rightarrow> cluster \<Rightarrow> ResourceStatus list \<times> err option" where
  "GetStatus h w = GetStatus_loop (ServiceHosts h) h w []"

definition GetSubset :: "DestinationRuleHandler \<Rightarrow> string" where
  "GetSubset h = UniqueName h"

definition GetHosts :: "DestinationRuleHandler \<Rightarrow> string list" where
  "GetHosts h = activeHosts h"

section \<open>The end-to-end scenario\<close>

text \<open>
  The scenario of the specification: hosts \<open>payments\<close> and \<open>orders\<close>, default version
  \<open>v1\<close>, target version \<open>v2\<close>.  The baseline of \<open>payments\<close> has a subset labelled
  \<open>version=v1\<close>; the baseline of \<open>orders\<close> has no such subset.  No operation fails.
\<close>

definition scenario_handler :: DestinationRuleHandler where
  "scenario_handler =
     \<lparr>UniqueName = ''env'', UniqueVersion = ''v2'', Namespace = ''ns'',
      VersionLabel = ''version'', DefaultVersion = ''v1'',
      ServiceHosts = [''payments'', ''orders''],
      Owner = \<lparr>nn_Namespace = ''ns1'', nn_Name = ''env1''\<rparr>,
      ignoredMissing = [], activeHosts = []\<rparr>"

definition scenario_cluster :: cluster where
  "scenario_cluster =
     \<lparr>objects =
        [\<lparr>om_Name = ''payments'', om_Namespace = ''ns'', om_Labels = Map.empty,
          om_Annotations = None, Host = ''payments'',
          Subsets = [\<lparr>ss_Name = ''base'', ss_Labels = [''version'' \<mapsto> ''v1'']\<rparr>]\<rparr>,
         \<lparr>om_Name = ''orders'', om_Namespace = ''ns'', om_Labels = Map.empty,
          om_Annotations = None, Host = ''orders'',
          Subsets = [\<lparr>ss_Name = ''base'', ss_Labels = [''version'' \<mapsto> ''v0'']\<rparr>]\<rparr>],
      status_entries = [],
      get_failure = (\<lambda>key. None),
      list_failure = (\<lambda>namespace. None),
      create_failure = (\<lambda>d. None),
      status_failure = (\<lambda>subsetName rs. None)\<rparr>"

section \<open>Vocabulary of the properties\<close>

text \<open>The tokens of an object's ownership annotation, as every function of package
  \<open>watches\<close> reads them: the annotation value (empty when absent) split at commas.\<close>

definition ownership_tokens :: "'a ObjectMeta_scheme \<Rightarrow> string list" where
  "ownership_tokens object =
     strings_Split (map_index (annotations_or_empty object) NamespacedNameAnnotation) (CHR '','')"

text \<open>A token is well formed when it has the \<open>namespace/name\<close> separator; the request of a
  well-formed token has the part before the first separator as namespace and the rest as
  name.\<close>

definition well_formed_token :: "string \<Rightarrow> bool" where
  "well_formed_token env = (CHR ''/'' \<in> set env)"

definition token_request :: "string \<Rightarrow> Request" where
  "token_request env =
     \<lparr>nn_Namespace = takeWhile (\<lambda>c. c \<noteq> CHR ''/'') env,
      nn_Name = tl (dropWhile (\<lambda>c. c \<noteq> CHR ''/'') env)\<rparr>"

text \<open>What \<open>AddToAnnotation\<close> does to the token list.\<close>

definition AddToAnnotation_tokens :: "string \<Rightarrow> string list \<Rightarrow> string list" where
  "AddToAnnotation_tokens tok envs =
     (if envs = [[]] then [tok] else if tok \<in> set envs then envs else envs @ [tok])"

text \<open>
  A host is ignorable in a cluster when its override object does not exist there and the
  resolution of its baseline yields \<open>IgnoredMissing\<close>: no listed object matches the host
  with a subset of the default version.
\<close>

definition ignorable :: "DestinationRuleHandler \<Rightarrow> cluster \<Rightarrow> string \<Rightarrow> bool" where
  "ignorable h w x =
     (client_Get w \<lparr>nn_Namespace = Namespace h, nn_Name = calculateDRName h x\<rparr> = Inl NotFound
      \<and> locateDestinationRuleByHostname h w x = Inl IgnoredMissing)"

text \<open>The object \<open>createOverridingDestinationRule\<close> persists for a host, given the baseline:
  the generated object with the owner stamped on it.\<close>

definition override_of :: "DestinationRuleHandler \<Rightarrow> string \<Rightarrow> DestinationRule \<Rightarrow> DestinationRule" where
  "override_of h x b =
     AddToAnnotation (Owner h)
       \<lparr>om_Name = calculateDRName h x,
        om_Namespace = Namespace h,
        om_Labels = [VersionLabel h \<mapsto> UniqueVersion h],
        om_Annotations = None,
        Host = Host b,
        Subsets = [\<lparr>ss_Name = UniqueVersion h,
                    ss_Labels = [VersionLabel h \<mapsto> UniqueVersion h]\<rparr>]\<rparr>"

text \<open>
  \<open>grown h w0 w\<close>: the cluster \<open>w\<close> is \<open>w0\<close> after some visits of the handler.  The store
  answers as before, and the objects are those of \<open>w0\<close> followed by overrides whose baselines
  are objects of \<open>w0\<close> in the handler's namespace.  The status entries are not constrained.
\<close>

definition same_failures :: "cluster \<Rightarrow> cluster \<Rightarrow> bool" where
  "same_failures w0 w =
     (get_failure w = get_failure w0 \<and> list_failure w = list_failure w0
      \<and> create_failure w = create_failure w0 \<and> status_failure w = status_failure w0)"

definition grown :: "DestinationRuleHandler \<Rightarrow> cluster \<Rightarrow> cluster \<Rightarrow> bool" where
  "grown h w0 w =
     (same_failures w0 w
      \<and> (\<exists>ds. objects w = objects w0 @ ds
            \<and> (\<forall>d\<in>set ds. \<exists>x b. d = override_of h x b \<and> b \<in> set (objects w0)
                   \<and> om_Namespace b = Namespace h \<and> is_default_for h x b)))"

text \<open>Two consecutive calls of \<open>Handle\<close> on the same handler instance, with no change of the
  cluster in between: the second call starts from the handler and the cluster the first
  call left.\<close>

definition Handle_again ::
  "DestinationRuleHandler \<Rightarrow> cluster \<Rightarrow> err option \<times> DestinationRuleHandler \<times> cluster" where
  "Handle_again h w = (case Handle h w of (r, h1, w1) \<Rightarrow> Handle h1 w1)"

section \<open>Splitting and joining\<close>

lemma strings_Split_not_Nil: "strings_Split s sep \<noteq> []"
  by (induction s) (auto split: list.splits)

lemma strings_Join_Split: "strings_Join (strings_Split s sep) sep = s"
proof (induction s)
  case Nil
  then show ?case by simp
next
  case (Cons c cs)
  obtain t ts where ts: "strings_Split cs sep = t # ts"
    using strings_Split_not_Nil [of cs sep] by (cases "strings_Split cs sep") auto
  with Cons show ?case by (cases ts) auto
qed

lemma strings_Split_no_sep: "t \<in> set (strings_Split s sep) \<Longrightarrow> sep \<notin> set t"
  by (induction s arbitrary: t) (auto split: if_splits list.splits)

lemma strings_Split_no_sep_word: "sep \<notin> set x \<Longrightarrow> strings_Split x sep = [x]"
  by (induction x) auto

lemma strings_Split_append:
  "sep \<notin> set x \<Longrightarrow> strings_Split (x @ sep # s) sep = x # strings_Split s sep"
  by (induction x) auto

lemma strings_Split_Join:
  "xs \<noteq> [] \<Longrightarrow> (\<forall>x\<in>set xs. sep \<notin> set x) \<Longrightarrow>
   strings_Split (strings_Join xs sep) sep = xs"
  by (induction xs sep rule: strings_Join.induct)
     (auto simp: strings_Split_no_sep_word strings_Split_append)

lemma strings_SplitN_2:
  "strings_SplitN s sep 2 =
     (if sep \<in> set s
      then [takeWhile (\<lambda>c. c \<noteq> sep) s, tl (dropWhile (\<lambda>c. c \<noteq> sep) s)]
      else [s])"
  by (simp add: numeral_2_eq_2)

section \<open>Fan-out of watch events\<close>

lemma addToQueue_loop_well_formed:
  "list_all (\<lambda>env. env = [] \<or> well_formed_token env) envs \<Longrightarrow>
   addToQueue_loop envs q = (None, q @ map token_request (filter (\<lambda>env. env \<noteq> []) envs))"
  by (induction envs arbitrary: q)
     (auto simp: strings_SplitN_2 token_request_def well_formed_token_def)

lemma addToQueue_loop_malformed:
  "env \<noteq> [] \<Longrightarrow> \<not> well_formed_token env \<Longrightarrow>
   addToQueue_loop (env # envs) q = (Some (IndexOutOfRange 1 1), q)"
  by (simp add: strings_SplitN_2 well_formed_token_def)

lemma addToQueue_well_formed:
  "list_all (\<lambda>env. env = [] \<or> well_formed_token env) (ownership_tokens object) \<Longrightarrow>
   addToQueue object q =
     (None, q @ map token_request (filter (\<lambda>env. env \<noteq> []) (ownership_tokens object)))"
  by (cases "om_Annotations object")
     (simp_all add: addToQueue_def ownership_tokens_def annotations_or_empty_def map_index_def
        addToQueue_loop_well_formed)

text \<open>
  On events whose annotations hold only well-formed (or empty) tokens the handlers do what
  the fan-out rule says: an update enqueues a request for every token of the new object and
  then for every token of the old one; the other three events enqueue the tokens of the one
  object they carry.
\<close>

lemma Update_well_formed:
  assumes "list_all (\<lambda>env. env = [] \<or> well_formed_token env) (ownership_tokens (ObjectNew evt))"
    and "list_all (\<lambda>env. env = [] \<or> well_formed_token env) (ownership_tokens (ObjectOld evt))"
  shows "Update evt q =
           (None, q @ map token_request (filter (\<lambda>env. env \<noteq> []) (ownership_tokens (ObjectNew evt)))
                    @ map token_request (filter (\<lambda>env. env \<noteq> []) (ownership_tokens (ObjectOld evt))))"
  using assms by (simp add: Update_def addToQueue_well_formed)

lemma Create_Delete_Generic_well_formed:
  assumes "list_all (\<lambda>env. env = [] \<or> well_formed_token env) (ownership_tokens object)"
  shows "Create object q =
           (None, q @ map token_request (filter (\<lambda>env. env \<noteq> []) (ownership_tokens object)))"
    and "Delete object q = Create object q"
    and "Generic object q = Create object q"
  using assms by (simp_all add: Create_def Delete_def Generic_def addToQueue_well_formed)

text \<open>
  C1.  An object whose ownership annotation holds a token without the \<open>namespace/name\<close>
  separator: \<open>addToQueue\<close> does not skip the token.  \<open>SplitN\<close> returns a one-element slice
  for it and \<open>values[1]\<close> panics.  With the annotation \<open>bad,ns1/env1\<close> the panic comes
  before any request is added, so the well-formed token \<open>ns1/env1\<close> gets no request; with
  \<open>ns1/env1,bad\<close> the request of the first token is in the queue when the panic comes.
\<close>

theorem addToQueue_malformed_token_panics:
  "addToQueue
     \<lparr>om_Name = ''dr'', om_Namespace = ''ns'', om_Labels = Map.empty,
      om_Annotations = Some [NamespacedNameAnnotation \<mapsto> ''bad,ns1/env1'']\<rparr> []
     = (Some (IndexOutOfRange 1 1), [])
   \<and> addToQueue
     \<lparr>om_Name = ''dr'', om_Namespace = ''ns'', om_Labels = Map.empty,
      om_Annotations = Some [NamespacedNameAnnotation \<mapsto> ''ns1/env1,bad'']\<rparr> []
     = (Some (IndexOutOfRange 1 1), [\<lparr>nn_Namespace = ''ns1'', nn_Name = ''env1''\<rparr>])"
  by (simp add: addToQueue_def map_index_def strings_SplitN_2)

text \<open>
  C10.  An update event whose new object carries the malformed annotation \<open>bad\<close> and whose
  old object carries the owner \<open>ns1/env1\<close>: \<open>Update\<close> panics while decoding the new object
  and never decodes the old one, so the owner found in the old object gets no request.
\<close>

theorem Update_malformed_token_panics:
  "Update
     \<lparr>ObjectOld =
        \<lparr>om_Name = ''dr'', om_Namespace = ''ns'', om_Labels = Map.empty,
         om_Annotations = Some [NamespacedNameAnnotation \<mapsto> ''ns1/env1'']\<rparr>,
      ObjectNew =
        \<lparr>om_Name = ''dr'', om_Namespace = ''ns'', om_Labels = Map.empty,
         om_Annotations = Some [NamespacedNameAnnotation \<mapsto> ''bad'']\<rparr>\<rparr> []
     = (Some (IndexOutOfRange 1 1), [])"
  by (simp add: Update_def addToQueue_def map_index_def strings_SplitN_2)

section \<open>The ownership annotation\<close>

lemma owner_token_not_Nil: "owner_token owner \<noteq> []"
  by (simp add: owner_token_def)

lemma ContainsAnnotation_tokens:
  "ContainsAnnotation owner object = (owner_token owner \<in> set (ownership_tokens object))"
  by (cases "om_Annotations object")
     (simp_all add: ContainsAnnotation_def ownership_tokens_def annotations_or_empty_def
        StringSliceContains_def map_index_def owner_token_not_Nil)

text \<open>
  C4 (amended).  For every owner not present in an object's ownership annotation,
  \<open>RemoveFromAnnotation\<close> leaves the value of the ownership annotation and every other
  annotation as they were, and writes the ownership key back: an object that already has
  the key is left exactly as it was, while an object with no annotations, or without the
  key, gains the key with the empty value.
\<close>

theorem RemoveFromAnnotation_absent_owner:
  assumes "\<not> ContainsAnnotation owner object"
  shows "RemoveFromAnnotation owner object =
           object\<lparr>om_Annotations :=
             Some ((annotations_or_empty object)(NamespacedNameAnnotation \<mapsto>
                map_index (annotations_or_empty object) NamespacedNameAnnotation))\<rparr>
         \<and> ((\<exists>annotations. om_Annotations object = Some annotations
                \<and> NamespacedNameAnnotation \<in> dom annotations)
              \<longrightarrow> RemoveFromAnnotation owner object = object)"
proof -
  let ?a = "annotations_or_empty object"
  let ?envs = "strings_Split (map_index ?a NamespacedNameAnnotation) (CHR '','')"
  from assms have "owner_token owner \<notin> set ?envs"
    by (simp add: ContainsAnnotation_tokens ownership_tokens_def)
  then have "RemoveItemFromStringSlice (owner_token owner) ?envs = ?envs"
    by (auto simp: RemoveItemFromStringSlice_def filter_id_conv)
  then have eq: "RemoveFromAnnotation owner object =
      object\<lparr>om_Annotations :=
        Some (?a(NamespacedNameAnnotation \<mapsto> map_index ?a NamespacedNameAnnotation))\<rparr>"
    by (simp add: RemoveFromAnnotation_def Let_def strings_Join_Split)
  have "RemoveFromAnnotation owner object = object"
    if "om_Annotations object = Some annotations" "NamespacedNameAnnotation \<in> dom annotations"
    for annotations
  proof -
    from that obtain v where v: "annotations NamespacedNameAnnotation = Some v" by auto
    have "annotations(NamespacedNameAnnotation \<mapsto> v) = annotations"
      using v by (simp add: map_upd_triv)
    with that v show ?thesis
      unfolding eq by (simp add: annotations_or_empty_def map_index_def)
  qed
  with eq show ?thesis by blast
qed

text \<open>Witness: the owner \<open>ns1/other\<close> is not among the owners of an object annotated
  \<open>ns1/env1\<close>, and removing it leaves the object as it was.\<close>

theorem RemoveFromAnnotation_absent_owner_witness:
  "\<not> ContainsAnnotation \<lparr>nn_Namespace = ''ns1'', nn_Name = ''other''\<rparr>
       \<lparr>om_Name = ''dr'', om_Namespace = ''ns'', om_Labels = Map.empty,
        om_Annotations = Some [NamespacedNameAnnotation \<mapsto> ''ns1/env1'']\<rparr>
   \<and> RemoveFromAnnotation \<lparr>nn_Namespace = ''ns1'', nn_Name = ''other''\<rparr>
       \<lparr>om_Name = ''dr'', om_Namespace = ''ns'', om_Labels = Map.empty,
        om_Annotations = Some [NamespacedNameAnnotation \<mapsto> ''ns1/env1'']\<rparr>
     = \<lparr>om_Name = ''dr'', om_Namespace = ''ns'', om_Labels = Map.empty,
        om_Annotations = Some [NamespacedNameAnnotation \<mapsto> ''ns1/env1'']\<rparr>"
proof -
  let ?owner = "\<lparr>nn_Namespace = ''ns1'', nn_Name = ''other''\<rparr>"
  let ?object = "\<lparr>om_Name = ''dr'', om_Namespace = ''ns'', om_Labels = Map.empty,
        om_Annotations = Some [NamespacedNameAnnotation \<mapsto> ''ns1/env1'']\<rparr>"
  have absent: "\<not> ContainsAnnotation ?owner ?object"
    by (simp add: ContainsAnnotation_def StringSliceContains_def map_index_def owner_token_def)
  have "\<exists>annotations. om_Annotations ?object = Some annotations
      \<and> NamespacedNameAnnotation \<in> dom annotations"
    by simp
  with RemoveFromAnnotation_absent_owner [OF absent] absent show ?thesis
    by blast
qed

text \<open>Counterexample to C4 as stated: the owner is not present in an object that has no
  annotations, and the object comes back with the ownership key, bound to the empty
  string.\<close>

theorem RemoveFromAnnotation_gains_key:
  "\<not> ContainsAnnotation \<lparr>nn_Namespace = ''ns1'', nn_Name = ''env1''\<rparr>
       \<lparr>om_Name = ''dr'', om_Namespace = ''ns'', om_Labels = Map.empty, om_Annotations = None\<rparr>
   \<and> om_Annotations
       (RemoveFromAnnotation \<lparr>nn_Namespace = ''ns1'', nn_Name = ''env1''\<rparr>
          \<lparr>om_Name = ''dr'', om_Namespace = ''ns'', om_Labels = Map.empty, om_Annotations = None\<rparr>)
     = Some [NamespacedNameAnnotation \<mapsto> '''']
   \<and> RemoveFromAnnotation \<lparr>nn_Namespace = ''ns1'', nn_Name = ''env1''\<rparr>
       \<lparr>om_Name = ''dr'', om_Namespace = ''ns'', om_Labels = Map.empty, om_Annotations = None\<rparr>
     \<noteq> \<lparr>om_Name = ''dr'', om_Namespace = ''ns'', om_Labels = Map.empty, om_Annotations = None\<rparr>"
  by (simp add: ContainsAnnotation_def RemoveFromAnnotation_def annotations_or_empty_def
      map_index_def RemoveItemFromStringSlice_def owner_token_def Let_def)

lemma AddToAnnotation_unfold:
  "AddToAnnotation owner object =
     object\<lparr>om_Annotations :=
       Some ((annotations_or_empty object)(NamespacedNameAnnotation \<mapsto>
          strings_Join (AddToAnnotation_tokens (owner_token owner) (ownership_tokens object))
            (CHR '','')))\<rparr>"
proof -
  have "(length envs = 1 \<and> envs ! 0 = []) = (envs = [[]])" for envs :: "string list"
    by (cases envs) auto
  then show ?thesis
    by (simp add: AddToAnnotation_def Let_def AddToAnnotation_tokens_def ownership_tokens_def
        StringSliceContains_def)
qed

lemma ownership_tokens_AddToAnnotation:
  assumes "CHR '','' \<notin> set (owner_token owner)"
  shows "ownership_tokens (AddToAnnotation owner object) =
           AddToAnnotation_tokens (owner_token owner) (ownership_tokens object)"
proof -
  let ?envs = "ownership_tokens object"
  let ?new = "AddToAnnotation_tokens (owner_token owner) ?envs"
  have "\<forall>x\<in>set ?envs. CHR '','' \<notin> set x"
    by (auto simp: ownership_tokens_def dest: strings_Split_no_sep)
  with assms have "\<forall>x\<in>set ?new. CHR '','' \<notin> set x"
    by (auto simp: AddToAnnotation_tokens_def)
  moreover have "?new \<noteq> []"
    by (simp add: AddToAnnotation_tokens_def ownership_tokens_def strings_Split_not_Nil)
  ultimately have "strings_Split (strings_Join ?new (CHR '','')) (CHR '','') = ?new"
    by (rule strings_Split_Join [rotated])
  then show ?thesis
    unfolding AddToAnnotation_unfold [of owner object]
    by (simp add: ownership_tokens_def [of "_\<lparr>om_Annotations := _\<rparr>"]
        annotations_or_empty_def map_index_def)
qed

lemma AddToAnnotation_tokens_idem:
  "tok \<noteq> [] \<Longrightarrow>
   AddToAnnotation_tokens tok (AddToAnnotation_tokens tok envs) = AddToAnnotation_tokens tok envs"
  by (auto simp: AddToAnnotation_tokens_def)

lemma count_AddToAnnotation_tokens:
  "tok \<noteq> [] \<Longrightarrow>
   count_list (AddToAnnotation_tokens tok envs) tok = max 1 (count_list envs tok)"
  by (auto simp: AddToAnnotation_tokens_def max_def not_le count_list_0_iff dest: leD)

text \<open>
  Two applications of \<open>AddToAnnotation\<close> with an owner whose token has no comma, on any
  object: the second application is a no-op, and the annotation holds the owner's token as
  often as the object held it before, and at least once.
\<close>

lemma AddToAnnotation_twice_general:
  assumes "CHR '','' \<notin> set (owner_token owner)"
  shows "AddToAnnotation owner (AddToAnnotation owner object) = AddToAnnotation owner object
         \<and> count_list (ownership_tokens (AddToAnnotation owner (AddToAnnotation owner object)))
              (owner_token owner)
            = max 1 (count_list (ownership_tokens object) (owner_token owner))"
proof -
  let ?tok = "owner_token owner"
  let ?once = "AddToAnnotation owner object"
  have toks: "ownership_tokens ?once = AddToAnnotation_tokens ?tok (ownership_tokens object)"
    using assms by (rule ownership_tokens_AddToAnnotation)
  have "AddToAnnotation owner ?once = ?once"
    unfolding AddToAnnotation_unfold [of owner ?once] toks
    by (simp add: AddToAnnotation_tokens_idem owner_token_not_Nil)
       (simp add: AddToAnnotation_unfold annotations_or_empty_def)
  moreover have "count_list (ownership_tokens ?once) ?tok
      = max 1 (count_list (ownership_tokens object) ?tok)"
    unfolding toks by (simp add: count_AddToAnnotation_tokens owner_token_not_Nil)
  ultimately show ?thesis by simp
qed

text \<open>\<open>AddToAnnotation\<close> never makes a duplicate: an annotation without repeated tokens has
  none after an owner is added.\<close>

lemma AddToAnnotation_distinct:
  assumes "CHR '','' \<notin> set (owner_token owner)"
    and "distinct (ownership_tokens object)"
  shows "distinct (ownership_tokens (AddToAnnotation owner object))"
  using assms
  by (auto simp: ownership_tokens_AddToAnnotation AddToAnnotation_tokens_def)

text \<open>
  C9.  For every owner and every object of the data model (the owner's namespace and name
  hold no comma, as no Kubernetes name does, and the object's ownership annotation does not
  hold the owner's token more than once, duplicates being forbidden), applying
  \<open>AddToAnnotation\<close> with the same owner twice leaves the ownership annotation holding
  exactly one token for that owner, and the second application is a no-op: the object
  after two applications is the object after one.
\<close>

theorem AddToAnnotation_twice:
  assumes "CHR '','' \<notin> set (owner_token owner)"
    and "count_list (ownership_tokens object) (owner_token owner) \<le> 1"
  shows "AddToAnnotation owner (AddToAnnotation owner object) = AddToAnnotation owner object
         \<and> count_list (ownership_tokens (AddToAnnotation owner (AddToAnnotation owner object)))
              (owner_token owner) = 1
         \<and> count_list (ownership_tokens (AddToAnnotation owner object)) (owner_token owner) = 1"
proof -
  let ?tok = "owner_token owner"
  have idem: "AddToAnnotation owner (AddToAnnotation owner object) = AddToAnnotation owner object"
    using AddToAnnotation_twice_general [OF assms(1), of object] by (rule conjunct1)
  have count: "count_list (ownership_tokens (AddToAnnotation owner (AddToAnnotation owner object)))
        ?tok = max 1 (count_list (ownership_tokens object) ?tok)"
    using AddToAnnotation_twice_general [OF assms(1), of object] by (rule conjunct2)
  from assms(2) have "max 1 (count_list (ownership_tokens object) ?tok) = 1"
    by (simp add: max_def)
  with count have one: "count_list
      (ownership_tokens (AddToAnnotation owner (AddToAnnotation owner object))) ?tok = 1"
    by simp
  with idem show ?thesis
    by simp
qed

text \<open>Witness: the owner \<open>ns1/env1\<close>, added twice to an object owned by \<open>ns1/other\<close>;
  the annotation is then \<open>ns1/other,ns1/env1\<close>, as after one application.\<close>

theorem AddToAnnotation_twice_witness:
  "CHR '','' \<notin> set (owner_token \<lparr>nn_Namespace = ''ns1'', nn_Name = ''env1''\<rparr>)
   \<and> count_list
       (ownership_tokens
          \<lparr>om_Name = ''dr'', om_Namespace = ''ns'', om_Labels = Map.empty,
           om_Annotations = Some [NamespacedNameAnnotation \<mapsto> ''ns1/other'']\<rparr>)
       (owner_token \<lparr>nn_Namespace = ''ns1'', nn_Name = ''env1''\<rparr>) \<le> 1
   \<and> count_list
       (ownership_tokens
          (AddToAnnotation \<lparr>nn_Namespace = ''ns1'', nn_Name = ''env1''\<rparr>
             (AddToAnnotation \<lparr>nn_Namespace = ''ns1'', nn_Name = ''env1''\<rparr>
                \<lparr>om_Name = ''dr'', om_Namespace = ''ns'', om_Labels = Map.empty,
                 om_Annotations = Some [NamespacedNameAnnotation \<mapsto> ''ns1/other'']\<rparr>)))
       (owner_token \<lparr>nn_Namespace = ''ns1'', nn_Name = ''env1''\<rparr>) = 1
   \<and> om_Annotations
       (AddToAnnotation \<lparr>nn_Namespace = ''ns1'', nn_Name = ''env1''\<rparr>
          (AddToAnnotation \<lparr>nn_Namespace = ''ns1'', nn_Name = ''env1''\<rparr>
             \<lparr>om_Name = ''dr'', om_Namespace = ''ns'', om_Labels = Map.empty,
              om_Annotations = Some [NamespacedNameAnnotation \<mapsto> ''ns1/other'']\<rparr>))
     = Some [NamespacedNameAnnotation \<mapsto> ''ns1/other,ns1/env1'']"
proof -
  let ?owner = "\<lparr>nn_Namespace = ''ns1'', nn_Name = ''env1''\<rparr>"
  let ?object = "\<lparr>om_Name = ''dr'', om_Namespace = ''ns'', om_Labels = Map.empty,
        om_Annotations = Some [NamespacedNameAnnotation \<mapsto> ''ns1/other'']\<rparr>"
  have comma: "CHR '','' \<notin> set (owner_token ?owner)"
    by (simp add: owner_token_def)
  have before: "count_list (ownership_tokens ?object) (owner_token ?owner) \<le> 1"
    by (simp add: ownership_tokens_def annotations_or_empty_def map_index_def owner_token_def)
  have once: "om_Annotations (AddToAnnotation ?owner ?object)
      = Some [NamespacedNameAnnotation \<mapsto> ''ns1/other,ns1/env1'']"
    by (simp add: AddToAnnotation_def annotations_or_empty_def map_index_def owner_token_def
        StringSliceContains_def Let_def)
  have twice: "AddToAnnotation ?owner (AddToAnnotation ?owner ?object)
      = AddToAnnotation ?owner ?object"
    using AddToAnnotation_twice [OF comma before] by (rule conjunct1)
  have "count_list (ownership_tokens (AddToAnnotation ?owner (AddToAnnotation ?owner ?object)))
          (owner_token ?owner) = 1"
    using AddToAnnotation_twice [OF comma before, THEN conjunct2] by (rule conjunct1)
  moreover from twice once
  have "om_Annotations (AddToAnnotation ?owner (AddToAnnotation ?owner ?object))
      = Some [NamespacedNameAnnotation \<mapsto> ''ns1/other,ns1/env1'']"
    by simp
  ultimately show ?thesis
    using comma before by blast
qed

section \<open>The handler: single steps\<close>

lemma calculateDRName_inject [simp]:
  "calculateDRName h x = calculateDRName h y \<longleftrightarrow> x = y"
  by (simp add: calculateDRName_def)

text \<open>The two accumulators of the handler are not read by anything but \<open>GetStatus\<close>.\<close>

lemma handler_accumulators [simp]:
  "calculateDRName (h\<lparr>ignoredMissing := i\<rparr>) = calculateDRName h"
  "calculateDRName (h\<lparr>activeHosts := a\<rparr>) = calculateDRName h"
  "is_default_for (h\<lparr>ignoredMissing := i\<rparr>) = is_default_for h"
  "is_default_for (h\<lparr>activeHosts := a\<rparr>) = is_default_for h"
  "override_of (h\<lparr>ignoredMissing := i\<rparr>) = override_of h"
  "override_of (h\<lparr>activeHosts := a\<rparr>) = override_of h"
  "setStatus (h\<lparr>ignoredMissing := i\<rparr>) = setStatus h"
  "setStatus (h\<lparr>activeHosts := a\<rparr>) = setStatus h"
  by (simp_all add: fun_eq_iff calculateDRName_def is_default_for_def override_of_def
      setStatus_def)

lemma handler_accumulators_locate [simp]:
  "locateDestinationRuleByHostname (h\<lparr>ignoredMissing := i\<rparr>) = locateDestinationRuleByHostname h"
  "locateDestinationRuleByHostname (h\<lparr>activeHosts := a\<rparr>) = locateDestinationRuleByHostname h"
  by (simp_all add: fun_eq_iff locateDestinationRuleByHostname_def cong: sum.case_cong)

lemma client_Get_status_entries [simp]:
  "client_Get (w\<lparr>status_entries := se\<rparr>) key = client_Get w key"
  by (simp add: client_Get_def cong: option.case_cong)

lemma client_List_status_entries [simp]:
  "client_List (w\<lparr>status_entries := se\<rparr>) namespace = client_List w namespace"
  by (simp add: client_List_def cong: option.case_cong)

lemma locate_status_entries [simp]:
  "locateDestinationRuleByHostname h (w\<lparr>status_entries := se\<rparr>) x
     = locateDestinationRuleByHostname h w x"
  by (simp add: locateDestinationRuleByHostname_def)

lemma generate_status_entries [simp]:
  "generateOverridingDestinationRule h (w\<lparr>status_entries := se\<rparr>) x
     = generateOverridingDestinationRule h w x"
  by (simp add: generateOverridingDestinationRule_def)

lemma setStatus_Inr:
  "setStatus h w subsetName drName status = Inr w1 \<Longrightarrow>
   w1 = w\<lparr>status_entries := status_entries w
          @ [(subsetName, \<lparr>rs_Name = drName, rs_Namespace = Namespace h, rs_Status = status\<rparr>)]\<rparr>"
  by (auto simp: setStatus_def AddDestinationRuleStatusEntry_def split: option.splits)






text \<open>A visit of a host without override object, whose baseline is not found.\<close>

lemma Handle_host_ignored:
  assumes "client_Get w \<lparr>nn_Namespace = Namespace h, nn_Name = calculateDRName h x\<rparr> = Inl NotFound"
    and "setStatus h w (UniqueName h) (calculateDRName h x) Initializing = Inr w1"
    and "locateDestinationRuleByHostname h w x = Inl IgnoredMissing"
  shows "Handle_host h w x = (None, h\<lparr>ignoredMissing := ignoredMissing h @ [x]\<rparr>, w1)"
proof -
  from assms(2) have "locateDestinationRuleByHostname h w1 x = locateDestinationRuleByHostname h w x"
    by (auto dest!: setStatus_Inr)
  with assms show ?thesis
    by (simp add: Handle_host_def IsNotFound_def createMissingDestinationRule_def
        createOverridingDestinationRule_def generateOverridingDestinationRule_def)
qed

lemma Handle_loop_all_ignored:
  assumes "list_all (\<lambda>x.
             client_Get w \<lparr>nn_Namespace = Namespace h, nn_Name = calculateDRName h x\<rparr>
               = Inl NotFound
             \<and> locateDestinationRuleByHostname h w x = Inl IgnoredMissing
             \<and> status_failure w (UniqueName h)
                 \<lparr>rs_Name = calculateDRName h x, rs_Namespace = Namespace h,
                  rs_Status = Initializing\<rparr> = None) hosts"
  shows "\<exists>se'. Handle_loop hosts (h\<lparr>ignoredMissing := i\<rparr>) (w\<lparr>status_entries := se\<rparr>)
           = (None, h\<lparr>ignoredMissing := i @ hosts\<rparr>, w\<lparr>status_entries := se'\<rparr>)"
  using assms
proof (induction hosts arbitrary: i se)
  case Nil
  then show ?case by auto
next
  case (Cons x rest)
  let ?h = "h\<lparr>ignoredMissing := i\<rparr>"
  let ?w = "w\<lparr>status_entries := se\<rparr>"
  let ?w1 = "w\<lparr>status_entries := se @ [(UniqueName h,
      \<lparr>rs_Name = calculateDRName h x, rs_Namespace = Namespace h, rs_Status = Initializing\<rparr>)]\<rparr>"
  from Cons.prems
  have "client_Get ?w \<lparr>nn_Namespace = Namespace ?h, nn_Name = calculateDRName ?h x\<rparr> = Inl NotFound"
    by simp
  moreover from Cons.prems
  have "setStatus ?h ?w (UniqueName ?h) (calculateDRName ?h x) Initializing = Inr ?w1"
    by (simp add: setStatus_def AddDestinationRuleStatusEntry_def)
  moreover from Cons.prems
  have "locateDestinationRuleByHostname ?h ?w x = Inl IgnoredMissing"
    by simp
  ultimately have "Handle_host ?h ?w x = (None, ?h\<lparr>ignoredMissing := ignoredMissing ?h @ [x]\<rparr>, ?w1)"
    by (rule Handle_host_ignored)
  moreover from Cons.prems have "list_all (\<lambda>x.
             client_Get w \<lparr>nn_Namespace = Namespace h, nn_Name = calculateDRName h x\<rparr>
               = Inl NotFound
             \<and> locateDestinationRuleByHostname h w x = Inl IgnoredMissing
             \<and> status_failure w (UniqueName h)
                 \<lparr>rs_Name = calculateDRName h x, rs_Namespace = Namespace h,
                  rs_Status = Initializing\<rparr> = None) rest"
    by simp
  from Cons.IH [OF this, of "i @ [x]"]
  obtain se' where "Handle_loop rest (h\<lparr>ignoredMissing := i @ [x]\<rparr>) ?w1
      = (None, h\<lparr>ignoredMissing := (i @ [x]) @ rest\<rparr>, w\<lparr>status_entries := se'\<rparr>)"
    by blast
  ultimately show ?case
    by auto
qed

text \<open>
  C5.  Whenever the loop of \<open>Handle\<close> comes to its end (no host made it return) with an
  empty list of active hosts, \<open>Handle\<close> returns the error "no base destination rules were
  found", and not success.  The hosts put on the ignored list do not count: when the
  handler has no active host and every configured host is without override object and
  without baseline of the default version (and its status update succeeds), every host
  goes on the ignored list and \<open>Handle\<close> returns that error.
\<close>

theorem Handle_no_active_hosts:
  "(Handle_loop (ServiceHosts h) h w = (None, h', w') \<and> activeHosts h' = []
      \<longrightarrow> Handle h w
            = (Some (Errorf ''no base destination rules were found for subset: %s''), h', w'))
   \<and> (activeHosts h = []
        \<and> list_all (\<lambda>x.
             client_Get w \<lparr>nn_Namespace = Namespace h, nn_Name = calculateDRName h x\<rparr>
               = Inl NotFound
             \<and> locateDestinationRuleByHostname h w x = Inl IgnoredMissing
             \<and> status_failure w (UniqueName h)
                 \<lparr>rs_Name = calculateDRName h x, rs_Namespace = Namespace h,
                  rs_Status = Initializing\<rparr> = None) (ServiceHosts h)
      \<longrightarrow> fst (Handle h w)
            = Some (Errorf ''no base destination rules were found for subset: %s'')
          \<and> fst (snd (Handle h w)) = h\<lparr>ignoredMissing := ignoredMissing h @ ServiceHosts h\<rparr>)"
proof (intro conjI impI)
  assume "Handle_loop (ServiceHosts h) h w = (None, h', w') \<and> activeHosts h' = []"
  then show "Handle h w
      = (Some (Errorf ''no base destination rules were found for subset: %s''), h', w')"
    by (simp add: Handle_def)
next
  assume all: "activeHosts h = []
        \<and> list_all (\<lambda>x.
             client_Get w \<lparr>nn_Namespace = Namespace h, nn_Name = calculateDRName h x\<rparr>
               = Inl NotFound
             \<and> locateDestinationRuleByHostname h w x = Inl IgnoredMissing
             \<and> status_failure w (UniqueName h)
                 \<lparr>rs_Name = calculateDRName h x, rs_Namespace = Namespace h,
                  rs_Status = Initializing\<rparr> = None) (ServiceHosts h)"
  then obtain se' where "Handle_loop (ServiceHosts h) (h\<lparr>ignoredMissing := ignoredMissing h\<rparr>)
        (w\<lparr>status_entries := status_entries w\<rparr>)
      = (None, h\<lparr>ignoredMissing := ignoredMissing h @ ServiceHosts h\<rparr>,
         w\<lparr>status_entries := se'\<rparr>)"
    using Handle_loop_all_ignored [of w h "ServiceHosts h" "ignoredMissing h" "status_entries w"]
    by blast
  with all have "Handle h w
      = (Some (Errorf ''no base destination rules were found for subset: %s''),
         h\<lparr>ignoredMissing := ignoredMissing h @ ServiceHosts h\<rparr>, w\<lparr>status_entries := se'\<rparr>)"
    by (simp add: Handle_def)
  then show "fst (Handle h w)
      = Some (Errorf ''no base destination rules were found for subset: %s'')"
    and "fst (snd (Handle h w)) = h\<lparr>ignoredMissing := ignoredMissing h @ ServiceHosts h\<rparr>"
    by simp_all
qed

text \<open>Witness: the only configured host is \<open>orders\<close>, which has no override object and
  whose baseline has no subset of the default version.  The loop ends with \<open>orders\<close> on the
  ignored list and no active host, and \<open>Handle\<close> returns the error.\<close>

theorem Handle_no_active_hosts_witness:
  "client_Get scenario_cluster \<lparr>nn_Namespace = ''ns'', nn_Name = ''env-orders''\<rparr> = Inl NotFound
   \<and> locateDestinationRuleByHostname (scenario_handler\<lparr>ServiceHosts := [''orders'']\<rparr>)
       scenario_cluster ''orders'' = Inl IgnoredMissing
   \<and> Handle_loop [''orders''] (scenario_handler\<lparr>ServiceHosts := [''orders'']\<rparr>) scenario_cluster
     = (None,
        scenario_handler\<lparr>ServiceHosts := [''orders''], ignoredMissing := [''orders'']\<rparr>,
        scenario_cluster\<lparr>status_entries :=
          [(''env'', \<lparr>rs_Name = ''env-orders'', rs_Namespace = ''ns'', rs_Status = Initializing\<rparr>)]\<rparr>)
   \<and> Handle (scenario_handler\<lparr>ServiceHosts := [''orders'']\<rparr>) scenario_cluster
     = (Some (Errorf ''no base destination rules were found for subset: %s''),
        scenario_handler\<lparr>ServiceHosts := [''orders''], ignoredMissing := [''orders'']\<rparr>,
        scenario_cluster\<lparr>status_entries :=
          [(''env'', \<lparr>rs_Name = ''env-orders'', rs_Namespace = ''ns'', rs_Status = Initializing\<rparr>)]\<rparr>)"
proof -
  let ?h = "scenario_handler\<lparr>ServiceHosts := [''orders'']\<rparr>"
  let ?h' = "scenario_handler\<lparr>ServiceHosts := [''orders''], ignoredMissing := [''orders'']\<rparr>"
  let ?w' = "scenario_cluster\<lparr>status_entries :=
          [(''env'', \<lparr>rs_Name = ''env-orders'', rs_Namespace = ''ns'', rs_Status = Initializing\<rparr>)]\<rparr>"
  have get: "client_Get scenario_cluster \<lparr>nn_Namespace = ''ns'', nn_Name = ''env-orders''\<rparr>
      = Inl NotFound"
    by (simp add: scenario_cluster_def client_Get_def has_key_def)
  have locate: "locateDestinationRuleByHostname ?h scenario_cluster ''orders'' = Inl IgnoredMissing"
    by (simp add: scenario_handler_def scenario_cluster_def locateDestinationRuleByHostname_def
        client_List_def is_default_for_def MatchNamespacedHost_def namespaced_host_def
        map_index_def)
  have loop: "Handle_loop (ServiceHosts ?h) ?h scenario_cluster = (None, ?h', ?w')"
    by (simp add: Handle_host_def createMissingDestinationRule_def
        createOverridingDestinationRule_def generateOverridingDestinationRule_def
        locateDestinationRuleByHostname_def is_default_for_def MatchNamespacedHost_def
        namespaced_host_def setStatus_def AddDestinationRuleStatusEntry_def client_Get_def
        client_List_def calculateDRName_def has_key_def IsNotFound_def map_index_def
        scenario_handler_def scenario_cluster_def)
  have none: "activeHosts ?h' = []"
    by (simp add: scenario_handler_def)
  from loop none have first: "Handle ?h scenario_cluster
      = (Some (Errorf ''no base destination rules were found for subset: %s''), ?h', ?w')"
    using Handle_no_active_hosts [of ?h scenario_cluster ?h' ?w', THEN conjunct1] by simp
  have "activeHosts ?h = []
      \<and> list_all (\<lambda>x.
           client_Get scenario_cluster
             \<lparr>nn_Namespace = Namespace ?h, nn_Name = calculateDRName ?h x\<rparr> = Inl NotFound
           \<and> locateDestinationRuleByHostname ?h scenario_cluster x = Inl IgnoredMissing
           \<and> status_failure scenario_cluster (UniqueName ?h)
               \<lparr>rs_Name = calculateDRName ?h x, rs_Namespace = Namespace ?h,
                rs_Status = Initializing\<rparr> = None) (ServiceHosts ?h)"
    using get locate
    by (simp add: scenario_handler_def calculateDRName_def)
       (simp add: scenario_cluster_def)
  with Handle_no_active_hosts [of ?h scenario_cluster ?h' ?w', THEN conjunct2]
  have "fst (Handle ?h scenario_cluster)
      = Some (Errorf ''no base destination rules were found for subset: %s'')"
    by blast
  with first loop get locate show ?thesis
    by simp
qed



section \<open>Host matching and generation\<close>

text \<open>
  C7.  A candidate whose declared host is \<open>declared\<close> matches the service host for the
  namespace exactly when the two strings are equal, or the declared host is the service
  host followed by a dot and the namespace, or the service host is the declared host
  followed by a dot and the namespace; exchanging the two strings does not change the
  answer.  Service \<open>svc\<close> in namespace \<open>ns\<close> matches the declared hosts \<open>svc\<close> and \<open>svc.ns\<close>,
  and neither \<open>svc.other-ns\<close> nor \<open>other-svc\<close>.
\<close>

theorem MatchNamespacedHost_rule:
  "MatchNamespacedHost serviceHost namespace declared candidateNamespace
     = (declared = serviceHost
        \<or> declared = serviceHost @ ''.'' @ namespace
        \<or> serviceHost = declared @ ''.'' @ namespace)
   \<and> MatchNamespacedHost serviceHost namespace declared candidateNamespace
     = MatchNamespacedHost declared namespace serviceHost candidateNamespace
   \<and> MatchNamespacedHost ''svc'' ''ns'' ''svc'' ''ns''
   \<and> MatchNamespacedHost ''svc'' ''ns'' ''svc.ns'' ''ns''
   \<and> \<not> MatchNamespacedHost ''svc'' ''ns'' ''svc.other-ns'' ''ns''
   \<and> \<not> MatchNamespacedHost ''svc'' ''ns'' ''other-svc'' ''ns''"
proof -
  have rule: "MatchNamespacedHost s n d c
      = (d = s \<or> d = s @ ''.'' @ n \<or> s = d @ ''.'' @ n)" for s n d c
    by (simp add: MatchNamespacedHost_def namespaced_host_def)
  have "MatchNamespacedHost serviceHost namespace declared candidateNamespace
      = MatchNamespacedHost declared namespace serviceHost candidateNamespace"
    unfolding rule by auto
  moreover have "MatchNamespacedHost ''svc'' ''ns'' ''svc'' ''ns''"
    and "MatchNamespacedHost ''svc'' ''ns'' ''svc.ns'' ''ns''"
    and "\<not> MatchNamespacedHost ''svc'' ''ns'' ''svc.other-ns'' ''ns''"
    and "\<not> MatchNamespacedHost ''svc'' ''ns'' ''other-svc'' ''ns''"
    unfolding rule by simp_all
  ultimately show ?thesis
    using rule by blast
qed

text \<open>
  C8.  For a service host whose baseline is resolved, \<open>generateOverridingDestinationRule\<close>
  returns the object named by the unique name, a hyphen and the service host, in the
  handler's namespace, labelled \<open>{versionLabel: uniqueVersion}\<close>, with the baseline's host
  and the single subset \<open>{name: uniqueVersion, labels: {versionLabel: uniqueVersion}}\<close>.
  Generation reads the cluster and returns no cluster: it writes nothing to the store (and
  the object carries no annotations yet; the caller stamps the owner on it).
\<close>

theorem generateOverridingDestinationRule_result:
  assumes "locateDestinationRuleByHostname h w serviceHost = Inr baseline"
  shows "generateOverridingDestinationRule h w serviceHost
           = Inr \<lparr>om_Name = UniqueName h @ ''-'' @ serviceHost,
                  om_Namespace = Namespace h,
                  om_Labels = [VersionLabel h \<mapsto> UniqueVersion h],
                  om_Annotations = None,
                  Host = Host baseline,
                  Subsets = [\<lparr>ss_Name = UniqueVersion h,
                              ss_Labels = [VersionLabel h \<mapsto> UniqueVersion h]\<rparr>]\<rparr>"
  using assms by (simp add: generateOverridingDestinationRule_def calculateDRName_def)

text \<open>Witness: in the scenario the baseline of \<open>payments\<close> is resolved, and the generated
  object is \<open>env-payments\<close> with the subset \<open>v2\<close>.\<close>

theorem generateOverridingDestinationRule_result_witness:
  "locateDestinationRuleByHostname scenario_handler scenario_cluster ''payments''
     = Inr \<lparr>om_Name = ''payments'', om_Namespace = ''ns'', om_Labels = Map.empty,
            om_Annotations = None, Host = ''payments'',
            Subsets = [\<lparr>ss_Name = ''base'', ss_Labels = [''version'' \<mapsto> ''v1'']\<rparr>]\<rparr>
   \<and> generateOverridingDestinationRule scenario_handler scenario_cluster ''payments''
     = Inr \<lparr>om_Name = ''env-payments'', om_Namespace = ''ns'',
            om_Labels = [''version'' \<mapsto> ''v2''], om_Annotations = None, Host = ''payments'',
            Subsets = [\<lparr>ss_Name = ''v2'', ss_Labels = [''version'' \<mapsto> ''v2'']\<rparr>]\<rparr>"
proof -
  have locate: "locateDestinationRuleByHostname scenario_handler scenario_cluster ''payments''
     = Inr \<lparr>om_Name = ''payments'', om_Namespace = ''ns'', om_Labels = Map.empty,
            om_Annotations = None, Host = ''payments'',
            Subsets = [\<lparr>ss_Name = ''base'', ss_Labels = [''version'' \<mapsto> ''v1'']\<rparr>]\<rparr>"
    by (simp add: scenario_handler_def scenario_cluster_def locateDestinationRuleByHostname_def
        client_List_def is_default_for_def MatchNamespacedHost_def namespaced_host_def
        map_index_def)
  from generateOverridingDestinationRule_result [OF locate] locate show ?thesis
    by (simp add: scenario_handler_def)
qed

section \<open>The store across visits\<close>

lemma find_append:
  "find P (xs @ ys) = (case find P xs of None \<Rightarrow> find P ys | Some x \<Rightarrow> Some x)"
  by (induction xs) auto

lemma AddToAnnotation_fields [simp]:
  "om_Name (AddToAnnotation owner d) = om_Name d"
  "om_Namespace (AddToAnnotation owner d) = om_Namespace d"
  "Host (AddToAnnotation owner d) = Host d"
  "Subsets (AddToAnnotation owner d) = Subsets d"
  by (simp_all add: AddToAnnotation_unfold)

lemma override_of_fields [simp]:
  "om_Name (override_of h x b) = calculateDRName h x"
  "om_Namespace (override_of h x b) = Namespace h"
  "Host (override_of h x b) = Host b"
  by (simp_all add: override_of_def)

lemma handler_accumulators_pred [simp]:
  "ignorable (h\<lparr>ignoredMissing := i\<rparr>) = ignorable h"
  "ignorable (h\<lparr>activeHosts := a\<rparr>) = ignorable h"
  "grown (h\<lparr>ignoredMissing := i\<rparr>) = grown h"
  "grown (h\<lparr>activeHosts := a\<rparr>) = grown h"
  by (simp_all add: fun_eq_iff ignorable_def grown_def)

lemma is_default_for_override:
  assumes "is_default_for h y (override_of h x b)"
    and "is_default_for h x b" and "om_Namespace b = Namespace h"
  shows "is_default_for h y b"
  using assms by (simp add: is_default_for_def)

lemma grown_refl: "grown h w w"
  by (simp add: grown_def same_failures_def)

lemma grown_status_entries [simp]:
  "grown h w0 (w\<lparr>status_entries := se\<rparr>) = grown h w0 w"
  by (simp add: grown_def same_failures_def)

lemma find_Some_mem: "find P xs = Some x \<Longrightarrow> x \<in> set xs \<and> P x"
  by (induction xs) (auto split: if_splits)

lemma locate_Inr:
  assumes "locateDestinationRuleByHostname h w x = Inr b"
  shows "b \<in> set (objects w) \<and> om_Namespace b = Namespace h \<and> is_default_for h x b"
  using assms
  by (auto simp: locateDestinationRuleByHostname_def client_List_def
      split: option.splits sum.splits dest: find_Some_mem)

lemma locate_IgnoredMissing:
  "locateDestinationRuleByHostname h w x = Inl IgnoredMissing \<longleftrightarrow>
     list_failure w (Namespace h) = None
     \<and> (\<forall>b\<in>set (objects w). om_Namespace b = Namespace h \<longrightarrow> \<not> is_default_for h x b)"
proof (cases "find (is_default_for h x)
                (filter (\<lambda>d. om_Namespace d = Namespace h) (objects w))")
  case None
  then have "\<forall>b\<in>set (objects w). om_Namespace b = Namespace h \<longrightarrow> \<not> is_default_for h x b"
    by (auto simp: find_None_iff)
  with None show ?thesis
    by (simp add: locateDestinationRuleByHostname_def client_List_def split: option.splits)
next
  case (Some b)
  from find_Some_mem [OF Some]
  have "b \<in> set (objects w)" "om_Namespace b = Namespace h" "is_default_for h x b"
    by auto
  with Some show ?thesis
    by (auto simp: locateDestinationRuleByHostname_def client_List_def split: option.splits)
qed

lemma grown_locate:
  assumes "grown h w0 w"
  shows "locateDestinationRuleByHostname h w x = locateDestinationRuleByHostname h w0 x"
proof -
  from assms obtain ds where fails: "list_failure w = list_failure w0"
    and objs: "objects w = objects w0 @ ds"
    and ds: "\<forall>d\<in>set ds. \<exists>y b. d = override_of h y b \<and> b \<in> set (objects w0)
               \<and> om_Namespace b = Namespace h \<and> is_default_for h y b"
    by (auto simp: grown_def same_failures_def)
  let ?ns = "\<lambda>d::DestinationRule. om_Namespace d = Namespace h"
  have "find (is_default_for h x) (filter ?ns ds) = None"
    if none: "find (is_default_for h x) (filter ?ns (objects w0)) = None"
  proof -
    have "\<not> is_default_for h x d" if "d \<in> set ds" for d
    proof
      assume d: "is_default_for h x d"
      from ds \<open>d \<in> set ds\<close> obtain y b where "d = override_of h y b" "b \<in> set (objects w0)"
        "om_Namespace b = Namespace h" "is_default_for h y b"
        by blast
      with d have "b \<in> set (filter ?ns (objects w0))" "is_default_for h x b"
        by (auto dest: is_default_for_override)
      with none show False
        by (simp add: find_None_iff)
    qed
    then show ?thesis
      by (simp add: find_None_iff)
  qed
  then show ?thesis
    by (simp add: locateDestinationRuleByHostname_def client_List_def fails objs find_append
        split: option.splits)
qed

lemma grown_ignorable:
  assumes "grown h w0 w"
  shows "ignorable h w x = ignorable h w0 x"
proof -
  let ?key = "\<lparr>nn_Namespace = Namespace h, nn_Name = calculateDRName h x\<rparr>"
  from assms obtain ds where fails: "get_failure w = get_failure w0"
    and objs: "objects w = objects w0 @ ds"
    and ds: "\<forall>d\<in>set ds. \<exists>y b. d = override_of h y b \<and> b \<in> set (objects w0)
               \<and> om_Namespace b = Namespace h \<and> is_default_for h y b"
    by (auto simp: grown_def same_failures_def)
  have loc: "locateDestinationRuleByHostname h w x = locateDestinationRuleByHostname h w0 x"
    using assms by (rule grown_locate)
  have "find (has_key ?key) ds = None"
    if "locateDestinationRuleByHostname h w0 x = Inl IgnoredMissing"
  proof -
    have "\<not> has_key ?key d" if "d \<in> set ds" for d
    proof
      assume key: "has_key ?key d"
      from ds \<open>d \<in> set ds\<close> obtain y b where "d = override_of h y b" "b \<in> set (objects w0)"
        "om_Namespace b = Namespace h" "is_default_for h y b"
        by blast
      with key have "b \<in> set (objects w0)" "om_Namespace b = Namespace h" "is_default_for h x b"
        by (auto simp: has_key_def)
      with \<open>locateDestinationRuleByHostname h w0 x = Inl IgnoredMissing\<close> show False
        by (auto simp: locate_IgnoredMissing)
    qed
    then show ?thesis
      by (simp add: find_None_iff)
  qed
  then show ?thesis
    by (auto simp: ignorable_def loc client_Get_def fails objs find_append split: option.splits)
qed

section \<open>The outcomes of a visit\<close>

lemma locate_error:
  assumes "locateDestinationRuleByHostname h w x = Inl e"
  shows "errors_As_IgnoredMissing e \<longleftrightarrow> e = IgnoredMissing"
  using assms
  by (auto simp: locateDestinationRuleByHostname_def client_List_def
      split: sum.splits option.splits)

lemma createOverriding_cases:
  assumes "createOverridingDestinationRule h w drName x = (r, w')"
  shows "(\<exists>e. locateDestinationRuleByHostname h w x = Inl e \<and> w' = w
            \<and> (\<exists>e'. r = Some e' \<and> errors_As_IgnoredMissing e' = (e = IgnoredMissing)))
       \<or> (\<exists>b. locateDestinationRuleByHostname h w x = Inr b
            \<and> ((\<exists>e'. r = Some e' \<and> \<not> errors_As_IgnoredMissing e' \<and> w' = w)
               \<or> (r = None \<and> w' = w\<lparr>objects := objects w @ [override_of h x b]\<rparr>)))"
proof (cases "locateDestinationRuleByHostname h w x")
  case (Inl e)
  with assms locate_error [OF Inl] show ?thesis
    by (auto simp: createOverridingDestinationRule_def generateOverridingDestinationRule_def)
next
  case (Inr b)
  then have gen: "generateOverridingDestinationRule h w x
      = Inr \<lparr>om_Name = calculateDRName h x, om_Namespace = Namespace h,
             om_Labels = [VersionLabel h \<mapsto> UniqueVersion h], om_Annotations = None,
             Host = Host b,
             Subsets = [\<lparr>ss_Name = UniqueVersion h,
                         ss_Labels = [VersionLabel h \<mapsto> UniqueVersion h]\<rparr>]\<rparr>"
    by (simp add: generateOverridingDestinationRule_def)
  from assms Inr show ?thesis
    unfolding createOverridingDestinationRule_def gen
    by (auto simp: override_of_def [symmetric] client_Create_def
        split: sum.splits option.splits if_splits)
qed

lemma Handle_host_None:
  assumes "Handle_host h w x = (None, h', w')"
  obtains (found) d where
      "client_Get w \<lparr>nn_Namespace = Namespace h, nn_Name = calculateDRName h x\<rparr> = Inr d"
      "h' = h\<lparr>activeHosts := activeHosts h @ [x]\<rparr>" "w' = w"
  | (ignored) se where "ignorable h w x"
      "setStatus h w (UniqueName h) (calculateDRName h x) Initializing = Inr w'"
      "h' = h\<lparr>ignoredMissing := ignoredMissing h @ [x]\<rparr>"
      "w' = w\<lparr>status_entries := se\<rparr>"
  | (created) b se where
      "client_Get w \<lparr>nn_Namespace = Namespace h, nn_Name = calculateDRName h x\<rparr> = Inl NotFound"
      "locateDestinationRuleByHostname h w x = Inr b"
      "h' = h\<lparr>activeHosts := activeHosts h @ [x]\<rparr>"
      "w' = w\<lparr>objects := objects w @ [override_of h x b], status_entries := se\<rparr>"
proof (cases "client_Get w \<lparr>nn_Namespace = Namespace h, nn_Name = calculateDRName h x\<rparr>")
  case (Inr d)
  show ?thesis
    by (rule found [OF Inr]) (use assms Inr in \<open>auto simp: Handle_host_def\<close>)
next
  case (Inl e)
  with assms have nf: "e = NotFound"
    by (auto simp: Handle_host_def IsNotFound_def split: if_splits)
  with assms Inl have cm:
    "createMissingDestinationRule h w (calculateDRName h x) x = (None, h', w')"
    by (auto simp: Handle_host_def IsNotFound_def split: prod.splits option.splits)
  then obtain w1 where st: "setStatus h w (UniqueName h) (calculateDRName h x) Initializing = Inr w1"
    by (auto simp: createMissingDestinationRule_def split: sum.splits)
  then obtain se where w1: "w1 = w\<lparr>status_entries := se\<rparr>"
    by (auto dest: setStatus_Inr)
  obtain r w2 where co: "createOverridingDestinationRule h w1 (calculateDRName h x) x = (r, w2)"
    by (cases "createOverridingDestinationRule h w1 (calculateDRName h x) x") auto
  from createOverriding_cases [OF co] show ?thesis
  proof (elim disjE exE conjE)
    fix e0 e'
    assume "locateDestinationRuleByHostname h w1 x = Inl e0" "w2 = w1" "r = Some e'"
      "errors_As_IgnoredMissing e' = (e0 = IgnoredMissing)"
    with cm st co w1 Inl nf show ?thesis
      by (intro ignored [of se])
         (auto simp: createMissingDestinationRule_def ignorable_def split: if_splits)
  next
    fix b e'
    assume "r = Some e'" "\<not> errors_As_IgnoredMissing e'"
    with cm st co show ?thesis
      by (auto simp: createMissingDestinationRule_def)
  next
    fix b
    assume "locateDestinationRuleByHostname h w1 x = Inr b" "r = None"
      "w2 = w1\<lparr>objects := objects w1 @ [override_of h x b]\<rparr>"
    with cm st co w1 Inl nf show ?thesis
      by (intro created [of b se]) (auto simp: createMissingDestinationRule_def)
  qed
qed

lemma Handle_host_Some:
  assumes "Handle_host h w x = (Some e, h', w')"
  shows "h' = h \<and> (\<exists>se. w' = w\<lparr>status_entries := se\<rparr>)"
proof (cases "client_Get w \<lparr>nn_Namespace = Namespace h, nn_Name = calculateDRName h x\<rparr>")
  case (Inr d)
  with assms show ?thesis
    by (auto simp: Handle_host_def)
next
  case (Inl e0)
  show ?thesis
  proof (cases "IsNotFound e0")
    case False
    with assms Inl have "h' = h" "w' = w\<lparr>status_entries := status_entries w\<rparr>"
      by (auto simp: Handle_host_def)
    then show ?thesis by blast
  next
    case True
    with assms Inl have cm:
      "createMissingDestinationRule h w (calculateDRName h x) x = (Some e, h', w')"
      by (auto simp: Handle_host_def split: prod.splits option.splits)
    show ?thesis
    proof (cases "setStatus h w (UniqueName h) (calculateDRName h x) Initializing")
      case (Inl e1)
      with cm have "h' = h" "w' = w\<lparr>status_entries := status_entries w\<rparr>"
        by (auto simp: createMissingDestinationRule_def)
      then show ?thesis by blast
    next
      case (Inr w1)
      then obtain se where w1: "w1 = w\<lparr>status_entries := se\<rparr>"
        by (auto dest: setStatus_Inr)
      obtain r w2 where co: "createOverridingDestinationRule h w1 (calculateDRName h x) x = (r, w2)"
        by (cases "createOverridingDestinationRule h w1 (calculateDRName h x) x") auto
      from createOverriding_cases [OF co] cm Inr co have "h' = h \<and> w' = w1"
        by (auto simp: createMissingDestinationRule_def split: if_splits)
      with w1 show ?thesis by blast
    qed
  qed
qed

text \<open>The error of a visit depends on the store and on the handler's configuration only.\<close>

lemma handler_accumulators_create [simp]:
  "generateOverridingDestinationRule (h\<lparr>ignoredMissing := i\<rparr>) = generateOverridingDestinationRule h"
  "generateOverridingDestinationRule (h\<lparr>activeHosts := a\<rparr>) = generateOverridingDestinationRule h"
  "createOverridingDestinationRule (h\<lparr>ignoredMissing := i\<rparr>) = createOverridingDestinationRule h"
  "createOverridingDestinationRule (h\<lparr>activeHosts := a\<rparr>) = createOverridingDestinationRule h"
  by (simp_all add: fun_eq_iff generateOverridingDestinationRule_def
      createOverridingDestinationRule_def cong: sum.case_cong)

lemma createOverriding_status_entries [simp]:
  "fst (createOverridingDestinationRule h (w\<lparr>status_entries := se\<rparr>) drName x)
     = fst (createOverridingDestinationRule h w drName x)"
  by (simp add: createOverridingDestinationRule_def client_Create_def
      split: sum.splits option.splits)

lemma createMissing_frame:
  "fst (createMissingDestinationRule (h\<lparr>ignoredMissing := i, activeHosts := a\<rparr>)
          (w\<lparr>status_entries := se\<rparr>) drName x)
     = fst (createMissingDestinationRule h w drName x)"
  by (simp add: createMissingDestinationRule_def setStatus_def
      AddDestinationRuleStatusEntry_def split_beta
      split: sum.splits option.splits)

lemma Handle_host_frame:
  "fst (Handle_host (h\<lparr>ignoredMissing := i, activeHosts := a\<rparr>) (w\<lparr>status_entries := se\<rparr>) x)
     = fst (Handle_host h w x)"
proof -
  have "fst (case p of (None, h', w') \<Rightarrow> (None, h', w') | (Some e', h', w') \<Rightarrow> (Some e', h', w'))
      = fst p" for p :: "err option \<times> DestinationRuleHandler \<times> cluster"
    by (simp add: split_beta split: option.splits)
  then show ?thesis
    by (simp add: Handle_host_def Let_def createMissing_frame split: sum.splits)
qed

section \<open>A pass of the loop, and the pass after it\<close>

lemma grown_failures:
  "grown h w0 w \<Longrightarrow> status_failure w = status_failure w0"
  by (simp add: grown_def same_failures_def)

lemma grown_created:
  assumes "grown h w0 w" and "locateDestinationRuleByHostname h w x = Inr b"
  shows "grown h w0 (w\<lparr>objects := objects w @ [override_of h x b]\<rparr>)"
proof -
  from assms have "locateDestinationRuleByHostname h w0 x = Inr b"
    by (simp add: grown_locate)
  then have "b \<in> set (objects w0) \<and> om_Namespace b = Namespace h \<and> is_default_for h x b"
    by (rule locate_Inr)
  with assms(1) show ?thesis
    by (fastforce simp: grown_def same_failures_def)
qed

lemma Handle_host_grown:
  assumes "Handle_host h w x = (r, h', w')" and "grown h w0 w"
  shows "grown h w0 w'"
proof (cases r)
  case None
  with assms(1) have "Handle_host h w x = (None, h', w')" by simp
  then show ?thesis
    using assms(2) by (cases rule: Handle_host_None) (simp_all add: grown_created)
next
  case (Some e)
  with assms show ?thesis
    by (auto dest!: Handle_host_Some)
qed

lemma client_Get_created:
  assumes "client_Get w \<lparr>nn_Namespace = Namespace h, nn_Name = calculateDRName h x\<rparr> = Inl NotFound"
  shows "client_Get (w\<lparr>objects := objects w @ [override_of h x b]\<rparr>)
           \<lparr>nn_Namespace = Namespace h, nn_Name = calculateDRName h x\<rparr> = Inr (override_of h x b)"
  using assms
  by (auto simp: client_Get_def find_append has_key_def split: option.splits)

lemma client_Get_kept:
  assumes "client_Get w key = Inr d"
  shows "client_Get (w\<lparr>objects := objects w @ ds\<rparr>) key = Inr d"
  using assms
  by (auto simp: client_Get_def find_append split: option.splits)

lemma Handle_host_keeps_found:
  assumes "Handle_host h w x = (r, h', w')" and "client_Get w key = Inr d"
  shows "client_Get w' key = Inr d"
proof (cases r)
  case None
  with assms(1) have "Handle_host h w x = (None, h', w')" by simp
  then show ?thesis
    using assms(2) by (cases rule: Handle_host_None) (simp_all add: client_Get_kept)
next
  case (Some e)
  with assms show ?thesis
    by (auto dest!: Handle_host_Some)
qed

lemma Handle_loop_keeps_found:
  assumes "Handle_loop hosts h w = (r, h', w')" and "client_Get w key = Inr d"
  shows "client_Get w' key = Inr d"
  using assms
proof (induction hosts arbitrary: h w)
  case Nil
  then show ?case by simp
next
  case (Cons x rest)
  obtain rx hx wx where visit: "Handle_host h w x = (rx, hx, wx)"
    by (cases "Handle_host h w x") auto
  then have found: "client_Get wx key = Inr d"
    using Cons.prems(2) by (rule Handle_host_keeps_found)
  show ?case
  proof (cases rx)
    case None
    with Cons.prems(1) visit have "Handle_loop rest hx wx = (r, h', w')" by simp
    then show ?thesis using found by (rule Cons.IH)
  next
    case (Some e)
    with Cons.prems(1) visit found show ?thesis by simp
  qed
qed

text \<open>The three visits of the pass after: of a host whose override object is there, of an
  ignorable host, and of the host that made the pass before return an error.\<close>

lemma again_active:
  assumes "client_Get w \<lparr>nn_Namespace = Namespace h, nn_Name = calculateDRName h x\<rparr> = Inr d"
  shows "Handle_host (h\<lparr>ignoredMissing := i, activeHosts := a\<rparr>) (w\<lparr>status_entries := se\<rparr>) x
           = (None, h\<lparr>ignoredMissing := i, activeHosts := a @ [x]\<rparr>, w\<lparr>status_entries := se\<rparr>)"
  using assms by (simp add: Handle_host_def)

lemma again_ignored:
  assumes "ignorable h w x"
    and "status_failure w (UniqueName h)
           \<lparr>rs_Name = calculateDRName h x, rs_Namespace = Namespace h, rs_Status = Initializing\<rparr>
         = None"
  shows "\<exists>se'. Handle_host (h\<lparr>ignoredMissing := i, activeHosts := a\<rparr>) (w\<lparr>status_entries := se\<rparr>) x
           = (None, h\<lparr>ignoredMissing := i @ [x], activeHosts := a\<rparr>, w\<lparr>status_entries := se'\<rparr>)"
proof -
  let ?h = "h\<lparr>ignoredMissing := i, activeHosts := a\<rparr>"
  let ?w = "w\<lparr>status_entries := se\<rparr>"
  let ?w1 = "w\<lparr>status_entries := se @ [(UniqueName h,
      \<lparr>rs_Name = calculateDRName h x, rs_Namespace = Namespace h, rs_Status = Initializing\<rparr>)]\<rparr>"
  from assms(1)
  have "client_Get ?w \<lparr>nn_Namespace = Namespace ?h, nn_Name = calculateDRName ?h x\<rparr> = Inl NotFound"
    by (simp add: ignorable_def)
  moreover from assms(2)
  have "setStatus ?h ?w (UniqueName ?h) (calculateDRName ?h x) Initializing = Inr ?w1"
    by (simp add: setStatus_def AddDestinationRuleStatusEntry_def)
  moreover from assms(1)
  have "locateDestinationRuleByHostname ?h ?w x = Inl IgnoredMissing"
    by (simp add: ignorable_def)
  ultimately have "Handle_host ?h ?w x = (None, ?h\<lparr>ignoredMissing := ignoredMissing ?h @ [x]\<rparr>, ?w1)"
    by (rule Handle_host_ignored)
  then show ?thesis
    by auto
qed

lemma again_error:
  assumes "Handle_host h w x = (Some e, h', w')"
  shows "\<exists>se'. Handle_host (h\<lparr>ignoredMissing := i, activeHosts := a\<rparr>) (w'\<lparr>status_entries := se\<rparr>) x
           = (Some e, h\<lparr>ignoredMissing := i, activeHosts := a\<rparr>, w'\<lparr>status_entries := se'\<rparr>)"
proof -
  let ?h = "h\<lparr>ignoredMissing := i, activeHosts := a\<rparr>"
  from Handle_host_Some [OF assms] obtain se0 where w': "w' = w\<lparr>status_entries := se0\<rparr>"
    by blast
  obtain r2 h2 w2 where visit: "Handle_host ?h (w\<lparr>status_entries := se\<rparr>) x = (r2, h2, w2)"
    by (cases "Handle_host ?h (w\<lparr>status_entries := se\<rparr>) x") auto
  have "fst (Handle_host ?h (w\<lparr>status_entries := se\<rparr>) x) = fst (Handle_host h w x)"
    by (rule Handle_host_frame)
  with visit assms have r2: "r2 = Some e" by simp
  with visit Handle_host_Some [of ?h "w\<lparr>status_entries := se\<rparr>" x e h2 w2]
  obtain se' where "h2 = ?h" "w2 = w\<lparr>status_entries := se'\<rparr>"
    by auto
  with visit r2 w' show ?thesis
    by auto
qed

text \<open>A visit that does not end the loop, seen from the cluster the pass began with.\<close>

lemma Handle_host_summary:
  assumes "Handle_host h w x = (None, hx, wx)" and "grown h w0 w"
  shows "(ignorable h w0 x
            \<and> hx = h\<lparr>ignoredMissing := ignoredMissing h @ [x]\<rparr>
            \<and> status_failure w0 (UniqueName h)
                 \<lparr>rs_Name = calculateDRName h x, rs_Namespace = Namespace h,
                  rs_Status = Initializing\<rparr> = None)
         \<or> (\<not> ignorable h w0 x
            \<and> hx = h\<lparr>activeHosts := activeHosts h @ [x]\<rparr>
            \<and> (\<exists>d. client_Get wx \<lparr>nn_Namespace = Namespace h, nn_Name = calculateDRName h x\<rparr>
                      = Inr d))"
  using assms(1)
proof (cases rule: Handle_host_None)
  case (found d)
  then have "\<not> ignorable h w x"
    by (simp add: ignorable_def)
  with found assms(2) show ?thesis
    by (simp add: grown_ignorable)
next
  case (ignored se)
  from ignored(2) have "status_failure w (UniqueName h)
      \<lparr>rs_Name = calculateDRName h x, rs_Namespace = Namespace h, rs_Status = Initializing\<rparr> = None"
    by (auto simp: setStatus_def AddDestinationRuleStatusEntry_def split: option.splits)
  with ignored assms(2) show ?thesis
    by (simp add: grown_ignorable grown_failures)
next
  case (created b se)
  then have "\<not> ignorable h w x"
    by (simp add: ignorable_def)
  with created assms(2) show ?thesis
    by (simp add: grown_ignorable client_Get_created)
qed

text \<open>
  A pass of the loop from a cluster grown from \<open>w0\<close>: what it appends to the two lists, and
  what the same loop does when it is run again on the cluster the pass left behind, from
  any state of the two lists.  The pass after returns what the pass before returned, appends
  the same hosts and leaves the objects of the store alone.
\<close>

lemma Handle_loop_again:
  assumes "Handle_loop hosts h w = (r, h1, w1)" and "grown h w0 w"
  shows "\<exists>ign new.
           h1 = h\<lparr>ignoredMissing := ignoredMissing h @ ign, activeHosts := activeHosts h @ new\<rparr>
         \<and> grown h w0 w1
         \<and> (\<forall>i a se. \<exists>se'.
               Handle_loop hosts (h\<lparr>ignoredMissing := i, activeHosts := a\<rparr>)
                 (w1\<lparr>status_entries := se\<rparr>)
               = (r, h\<lparr>ignoredMissing := i @ ign, activeHosts := a @ new\<rparr>,
                  w1\<lparr>status_entries := se'\<rparr>))
         \<and> (r = None \<longrightarrow>
               ign = filter (ignorable h w0) hosts
             \<and> new = filter (\<lambda>x. \<not> ignorable h w0 x) hosts
             \<and> (\<forall>x\<in>set hosts. \<not> ignorable h w0 x \<longrightarrow>
                   (\<exists>d. client_Get w1 \<lparr>nn_Namespace = Namespace h, nn_Name = calculateDRName h x\<rparr>
                          = Inr d)))"
  using assms
proof (induction hosts arbitrary: h w)
  case Nil
  then have "r = None" "h1 = h" "w1 = w"
    by simp_all
  with Nil.prems(2) show ?case
    by (intro exI [of _ "[]"]) auto
next
  case (Cons x rest)
  let ?key = "\<lambda>y. \<lparr>nn_Namespace = Namespace h, nn_Name = calculateDRName h y\<rparr>"
  obtain rx hx wx where visit: "Handle_host h w x = (rx, hx, wx)"
    by (cases "Handle_host h w x") auto
  show ?case
  proof (cases rx)
    case (Some e)
    with Cons.prems(1) visit have r: "r = Some e" "h1 = hx" "w1 = wx"
      by simp_all
    from visit Some have hx: "hx = h" and wx: "\<exists>se. wx = w\<lparr>status_entries := se\<rparr>"
      by (auto dest!: Handle_host_Some)
    have "\<exists>se'. Handle_loop (x # rest) (h\<lparr>ignoredMissing := i, activeHosts := a\<rparr>)
                   (wx\<lparr>status_entries := se\<rparr>)
                 = (Some e, h\<lparr>ignoredMissing := i, activeHosts := a\<rparr>, wx\<lparr>status_entries := se'\<rparr>)"
      for i a se
      using again_error [OF visit [unfolded Some], where i = i and a = a and se = se] by auto
    with r hx wx Cons.prems(2) show ?thesis
      by (intro exI [of _ "[]"]) auto
  next
    case None
    with Cons.prems(1) visit have rest: "Handle_loop rest hx wx = (r, h1, w1)"
      by simp
    from visit None have visit': "Handle_host h w x = (None, hx, wx)"
      by simp
    have gx: "grown h w0 wx"
      using visit Cons.prems(2) by (rule Handle_host_grown)
    from Handle_host_summary [OF visit' Cons.prems(2)]
    consider (ignored) "ignorable h w0 x"
        "hx = h\<lparr>ignoredMissing := ignoredMissing h @ [x]\<rparr>"
        "status_failure w0 (UniqueName h)
           \<lparr>rs_Name = calculateDRName h x, rs_Namespace = Namespace h, rs_Status = Initializing\<rparr>
         = None"
      | (active) d where "\<not> ignorable h w0 x"
        "hx = h\<lparr>activeHosts := activeHosts h @ [x]\<rparr>"
        "client_Get wx (?key x) = Inr d"
      by auto
    then show ?thesis
    proof cases
      case ignored
      from gx ignored(2) have "grown hx w0 wx"
        by simp
      from Cons.IH [OF rest this] ignored(2)
      obtain ign new where h1: "h1 = h\<lparr>ignoredMissing := ignoredMissing h @ x # ign,
            activeHosts := activeHosts h @ new\<rparr>"
        and g1: "grown h w0 w1"
        and again: "\<And>i a se. \<exists>se'.
             Handle_loop rest (h\<lparr>ignoredMissing := i, activeHosts := a\<rparr>)
               (w1\<lparr>status_entries := se\<rparr>)
             = (r, h\<lparr>ignoredMissing := i @ ign, activeHosts := a @ new\<rparr>,
                w1\<lparr>status_entries := se'\<rparr>)"
        and complete: "r = None \<Longrightarrow>
             ign = filter (ignorable h w0) rest
           \<and> new = filter (\<lambda>x. \<not> ignorable h w0 x) rest
           \<and> (\<forall>y\<in>set rest. \<not> ignorable h w0 y \<longrightarrow> (\<exists>d. client_Get w1 (?key y) = Inr d))"
        by auto
      from g1 ignored have "ignorable h w1 x"
        and "status_failure w1 (UniqueName h)
           \<lparr>rs_Name = calculateDRName h x, rs_Namespace = Namespace h, rs_Status = Initializing\<rparr>
         = None"
        by (simp_all add: grown_ignorable grown_failures)
      then have first: "\<exists>se'. Handle_host (h\<lparr>ignoredMissing := i, activeHosts := a\<rparr>)
            (w1\<lparr>status_entries := se\<rparr>) x
          = (None, h\<lparr>ignoredMissing := i @ [x], activeHosts := a\<rparr>, w1\<lparr>status_entries := se'\<rparr>)"
        for i a se
        by (rule again_ignored)
      have "\<exists>se'. Handle_loop (x # rest) (h\<lparr>ignoredMissing := i, activeHosts := a\<rparr>)
                     (w1\<lparr>status_entries := se\<rparr>)
                   = (r, h\<lparr>ignoredMissing := i @ x # ign, activeHosts := a @ new\<rparr>,
                      w1\<lparr>status_entries := se'\<rparr>)"
        for i a se
      proof -
        from first [where i = i and a = a and se = se] obtain se1 where
          "Handle_host (h\<lparr>ignoredMissing := i, activeHosts := a\<rparr>) (w1\<lparr>status_entries := se\<rparr>) x
             = (None, h\<lparr>ignoredMissing := i @ [x], activeHosts := a\<rparr>, w1\<lparr>status_entries := se1\<rparr>)"
          by blast
        moreover from again [where i = "i @ [x]" and a = a and se = se1] obtain se' where
          "Handle_loop rest (h\<lparr>ignoredMissing := i @ [x], activeHosts := a\<rparr>)
             (w1\<lparr>status_entries := se1\<rparr>)
           = (r, h\<lparr>ignoredMissing := (i @ [x]) @ ign, activeHosts := a @ new\<rparr>,
              w1\<lparr>status_entries := se'\<rparr>)"
          by blast
        ultimately show ?thesis
          by auto
      qed
      with h1 g1 complete ignored(1) show ?thesis
        by (intro exI [of _ "x # ign"] exI [of _ new]) simp
    next
      case (active d)
      from gx active(2) have "grown hx w0 wx"
        by simp
      from Cons.IH [OF rest this] active(2)
      obtain ign new where h1: "h1 = h\<lparr>ignoredMissing := ignoredMissing h @ ign,
            activeHosts := activeHosts h @ x # new\<rparr>"
        and g1: "grown h w0 w1"
        and again: "\<And>i a se. \<exists>se'.
             Handle_loop rest (h\<lparr>ignoredMissing := i, activeHosts := a\<rparr>)
               (w1\<lparr>status_entries := se\<rparr>)
             = (r, h\<lparr>ignoredMissing := i @ ign, activeHosts := a @ new\<rparr>,
                w1\<lparr>status_entries := se'\<rparr>)"
        and complete: "r = None \<Longrightarrow>
             ign = filter (ignorable h w0) rest
           \<and> new = filter (\<lambda>x. \<not> ignorable h w0 x) rest
           \<and> (\<forall>y\<in>set rest. \<not> ignorable h w0 y \<longrightarrow> (\<exists>d. client_Get w1 (?key y) = Inr d))"
        by auto
      from rest active(3) have found: "client_Get w1 (?key x) = Inr d"
        by (rule Handle_loop_keeps_found)
      have "\<exists>se'. Handle_loop (x # rest) (h\<lparr>ignoredMissing := i, activeHosts := a\<rparr>)
                     (w1\<lparr>status_entries := se\<rparr>)
                   = (r, h\<lparr>ignoredMissing := i @ ign, activeHosts := a @ x # new\<rparr>,
                      w1\<lparr>status_entries := se'\<rparr>)"
        for i a se
        using again_active [OF found, where i = i and a = a and se = se]
          again [where i = i and a = "a @ [x]" and se = se]
        by auto
      with h1 g1 complete active(1) found show ?thesis
        by (intro exI [of _ ign] exI [of _ "x # new"]) simp
    qed
  qed
qed

section \<open>Repeated calls of Handle\<close>

lemmas scenario_defs =
  Handle_again_def Handle_def Handle_host_def createMissingDestinationRule_def
  createOverridingDestinationRule_def generateOverridingDestinationRule_def
  locateDestinationRuleByHostname_def is_default_for_def MatchNamespacedHost_def
  namespaced_host_def setStatus_def AddDestinationRuleStatusEntry_def client_Get_def
  client_List_def client_Create_def calculateDRName_def has_key_def IsNotFound_def
  AddToAnnotation_def annotations_or_empty_def map_index_def owner_token_def
  StringSliceContains_def GetHosts_def GetStatus_def genStatus_def ignorable_def
  scenario_handler_def scenario_cluster_def Let_def

lemma Handle_loop_error_Wrapf:
  "Handle_loop hosts h w = (Some e, h', w') \<Longrightarrow> \<exists>msg e'. e = Wrapf msg e'"
proof (induction hosts arbitrary: h w)
  case Nil
  then show ?case by simp
next
  case (Cons x rest)
  obtain rx hx wx where visit: "Handle_host h w x = (rx, hx, wx)"
    by (cases "Handle_host h w x") auto
  show ?case
  proof (cases rx)
    case None
    with Cons.prems visit have "Handle_loop rest hx wx = (Some e, h', w')" by simp
    then show ?thesis by (rule Cons.IH)
  next
    case (Some e1)
    with Cons.prems visit have "Handle_host h w x = (Some e, hx, wx)" by simp
    then show ?thesis
      by (auto simp: Handle_host_def createMissingDestinationRule_def Let_def
          split: sum.splits option.splits prod.splits if_splits)
  qed
qed

lemma Handle_loop_of_Handle:
  assumes "Handle h w = (r, h1, w1)"
  obtains rl where "Handle_loop (ServiceHosts h) h w = (rl, h1, w1)"
    and "r = (case rl of
                Some e \<Rightarrow> Some e
              | None \<Rightarrow> if activeHosts h1 = []
                        then Some (Errorf ''no base destination rules were found for subset: %s'')
                        else None)"
  using assms
  by (cases "Handle_loop (ServiceHosts h) h w")
     (auto simp: Handle_def split: option.splits if_splits)

lemma Handle_loop_complete:
  assumes "Handle h w = (r, h1, w1)"
    and "r = None \<or> r = Some (Errorf ''no base destination rules were found for subset: %s'')"
  shows "Handle_loop (ServiceHosts h) h w = (None, h1, w1)"
proof -
  from assms(1) obtain rl where loop: "Handle_loop (ServiceHosts h) h w = (rl, h1, w1)"
    and r: "r = (case rl of
                Some e \<Rightarrow> Some e
              | None \<Rightarrow> if activeHosts h1 = []
                        then Some (Errorf ''no base destination rules were found for subset: %s'')
                        else None)"
    by (rule Handle_loop_of_Handle)
  show ?thesis
  proof (cases rl)
    case None
    with loop show ?thesis by simp
  next
    case (Some e)
    with loop obtain msg e' where "e = Wrapf msg e'"
      by (auto dest: Handle_loop_error_Wrapf)
    with Some r assms(2) show ?thesis by auto
  qed
qed

text \<open>The second of two consecutive calls: it returns what the first returned, appends to
  the two lists what the first appended, and changes nothing but the status entries.\<close>

lemma Handle_second_call:
  assumes "Handle h w = (r, h1, w1)"
  shows "\<exists>ign new se'.
           h1 = h\<lparr>ignoredMissing := ignoredMissing h @ ign, activeHosts := activeHosts h @ new\<rparr>
         \<and> Handle h1 w1
             = (r, h\<lparr>ignoredMissing := ignoredMissing h1 @ ign,
                     activeHosts := activeHosts h1 @ new\<rparr>,
                w1\<lparr>status_entries := se'\<rparr>)
         \<and> (\<exists>se''. Handle h w1 = (r, h1, w1\<lparr>status_entries := se''\<rparr>))
         \<and> (Handle_loop (ServiceHosts h) h w = (None, h1, w1)
              \<longrightarrow> ign = filter (ignorable h w) (ServiceHosts h))"
proof -
  from assms obtain rl where loop: "Handle_loop (ServiceHosts h) h w = (rl, h1, w1)"
    and r: "r = (case rl of
                Some e \<Rightarrow> Some e
              | None \<Rightarrow> if activeHosts h1 = []
                        then Some (Errorf ''no base destination rules were found for subset: %s'')
                        else None)"
    by (rule Handle_loop_of_Handle)
  from Handle_loop_again [OF loop grown_refl]
  obtain ign new where h1: "h1 = h\<lparr>ignoredMissing := ignoredMissing h @ ign,
        activeHosts := activeHosts h @ new\<rparr>"
    and again: "\<And>i a se. \<exists>se'.
         Handle_loop (ServiceHosts h) (h\<lparr>ignoredMissing := i, activeHosts := a\<rparr>)
           (w1\<lparr>status_entries := se\<rparr>)
         = (rl, h\<lparr>ignoredMissing := i @ ign, activeHosts := a @ new\<rparr>,
            w1\<lparr>status_entries := se'\<rparr>)"
    and complete: "rl = None \<Longrightarrow> ign = filter (ignorable h w) (ServiceHosts h)"
    by blast
  let ?h2 = "h\<lparr>ignoredMissing := ignoredMissing h1 @ ign, activeHosts := activeHosts h1 @ new\<rparr>"
  from again [where i = "ignoredMissing h1" and a = "activeHosts h1" and se = "status_entries w1"]
  obtain se' where "Handle_loop (ServiceHosts h)
        (h\<lparr>ignoredMissing := ignoredMissing h1, activeHosts := activeHosts h1\<rparr>)
        (w1\<lparr>status_entries := status_entries w1\<rparr>)
      = (rl, ?h2, w1\<lparr>status_entries := se'\<rparr>)"
    by blast
  moreover have "h\<lparr>ignoredMissing := ignoredMissing h1, activeHosts := activeHosts h1\<rparr> = h1"
    by (subst (3) h1) (simp add: h1)
  moreover have "ServiceHosts h1 = ServiceHosts h"
    by (simp add: h1)
  ultimately have loop2: "Handle_loop (ServiceHosts h1) h1 w1 = (rl, ?h2, w1\<lparr>status_entries := se'\<rparr>)"
    by simp
  have active: "activeHosts h1 = activeHosts h @ new"
    by (simp add: h1)
  have "Handle h1 w1 = (r, ?h2, w1\<lparr>status_entries := se'\<rparr>)"
  proof (cases "activeHosts h1 = []")
    case True
    with active have "new = []" by simp
    with True loop2 r show ?thesis
      by (simp add: Handle_def split: option.splits)
  next
    case False
    with loop2 r show ?thesis
      by (simp add: Handle_def split: option.splits)
  qed
  moreover have "\<exists>se''. Handle h w1 = (r, h1, w1\<lparr>status_entries := se''\<rparr>)"
  proof -
    from again [where i = "ignoredMissing h" and a = "activeHosts h" and se = "status_entries w1"]
    obtain se'' where "Handle_loop (ServiceHosts h) h w1 = (rl, h1, w1\<lparr>status_entries := se''\<rparr>)"
      by (auto simp: h1)
    with r have "Handle h w1 = (r, h1, w1\<lparr>status_entries := se''\<rparr>)"
      by (simp add: Handle_def split: option.splits)
    then show ?thesis ..
  qed
  moreover have "ign = filter (ignorable h w) (ServiceHosts h)"
    if "Handle_loop (ServiceHosts h) h w = (None, h1, w1)"
    using that loop complete by simp
  ultimately show ?thesis
    using h1 by blast
qed

text \<open>
  C2 (amended).  For every handler instance over a fixed store state, two consecutive
  \<open>Handle\<close> calls with no external state change return the same result and yield the same
  set of active hosts, and the second call creates no routing object: it leaves the objects
  of the store as the first call left them.  The list \<open>GetHosts\<close> returns is the same only
  when the first call appended no host: the second call appends once more every host the
  first call appended, so every host the first call made active is in the list twice.  (A second call made with the two lists as they were before
  the first call ends with exactly the lists the first call ended with.)
\<close>

theorem Handle_twice:
  assumes "Handle h w = (r, h1, w1)"
  shows "\<exists>new h2 w2 w3.
           Handle h1 w1 = (r, h2, w2)
         \<and> objects w2 = objects w1
         \<and> GetHosts h1 = GetHosts h @ new
         \<and> GetHosts h2 = GetHosts h1 @ new
         \<and> set (GetHosts h2) = set (GetHosts h1)
         \<and> Handle h w1 = (r, h1, w3)
         \<and> objects w3 = objects w1"
proof -
  from Handle_second_call [OF assms]
  obtain ign new se' where h1: "h1 = h\<lparr>ignoredMissing := ignoredMissing h @ ign,
        activeHosts := activeHosts h @ new\<rparr>"
    and second: "Handle h1 w1
      = (r, h\<lparr>ignoredMissing := ignoredMissing h1 @ ign, activeHosts := activeHosts h1 @ new\<rparr>,
         w1\<lparr>status_entries := se'\<rparr>)"
    and fresh: "\<exists>se''. Handle h w1 = (r, h1, w1\<lparr>status_entries := se''\<rparr>)"
    by blast
  from fresh obtain se'' where fresh': "Handle h w1 = (r, h1, w1\<lparr>status_entries := se''\<rparr>)"
    by blast
  let ?h2 = "h\<lparr>ignoredMissing := ignoredMissing h1 @ ign, activeHosts := activeHosts h1 @ new\<rparr>"
  have active: "GetHosts h1 = GetHosts h @ new" "GetHosts ?h2 = GetHosts h1 @ new"
    by (simp_all add: GetHosts_def h1)
  then have "set (GetHosts ?h2) = set (GetHosts h1)"
    by auto
  moreover have "objects (w1\<lparr>status_entries := se'\<rparr>) = objects w1"
    and "objects (w1\<lparr>status_entries := se''\<rparr>) = objects w1"
    by simp_all
  ultimately show ?thesis
    using second fresh' active by blast
qed

text \<open>Witness: in the scenario the first call succeeds with \<open>payments\<close> active; the second
  call succeeds too, leaves the three objects of the store alone and returns \<open>payments\<close>
  twice.\<close>

theorem Handle_twice_witness:
  "fst (Handle scenario_handler scenario_cluster) = None
   \<and> GetHosts (fst (snd (Handle scenario_handler scenario_cluster))) = [''payments'']
   \<and> fst (Handle_again scenario_handler scenario_cluster) = None
   \<and> GetHosts (fst (snd (Handle_again scenario_handler scenario_cluster)))
       = [''payments'', ''payments'']
   \<and> objects (snd (snd (Handle_again scenario_handler scenario_cluster)))
       = objects (snd (snd (Handle scenario_handler scenario_cluster)))"
proof -
  let ?first = "Handle scenario_handler scenario_cluster"
  have r: "fst ?first = None"
    by (simp add: scenario_defs)
  have hosts: "GetHosts (fst (snd ?first)) = [''payments'']"
    by (simp add: scenario_defs)
  have none: "GetHosts scenario_handler = []"
    by (simp add: GetHosts_def scenario_handler_def)
  have "?first = (fst ?first, fst (snd ?first), snd (snd ?first))"
    by simp
  from Handle_twice [OF this] obtain new h2 w2 w3 where
    second: "Handle (fst (snd ?first)) (snd (snd ?first)) = (fst ?first, h2, w2)"
    and objs: "objects w2 = objects (snd (snd ?first))"
    and new: "GetHosts (fst (snd ?first)) = GetHosts scenario_handler @ new"
      "GetHosts h2 = GetHosts (fst (snd ?first)) @ new"
    by blast
  from new hosts none have "GetHosts h2 = [''payments'', ''payments'']"
    by simp
  with second objs r hosts show ?thesis
    by (simp add: Handle_again_def split_beta)
qed

text \<open>Counterexample to C2 as stated: in the scenario, \<open>GetHosts\<close> after the second call is
  not \<open>GetHosts\<close> after the first, and it has a duplicate.\<close>

theorem Handle_twice_duplicates:
  "GetHosts (fst (snd (Handle scenario_handler scenario_cluster))) = [''payments'']
   \<and> GetHosts (fst (snd (Handle_again scenario_handler scenario_cluster)))
       = [''payments'', ''payments'']
   \<and> \<not> distinct (GetHosts (fst (snd (Handle_again scenario_handler scenario_cluster))))"
  by (simp add: scenario_defs)

section \<open>The ignored list and the status report\<close>

lemma count_list_filter:
  "count_list (filter P xs) x = (if P x then count_list xs x else 0)"
  by (induction xs) auto

lemma GetStatus_loop_settled:
  assumes "\<forall>y\<in>set hosts.
             (if ign y
              then client_Get w \<lparr>nn_Namespace = Namespace h, nn_Name = calculateDRName h y\<rparr>
                     = Inl NotFound \<and> y \<in> set (ignoredMissing h)
              else \<exists>d. client_Get w \<lparr>nn_Namespace = Namespace h, nn_Name = calculateDRName h y\<rparr>
                     = Inr d)"
  shows "GetStatus_loop hosts h w statuses
           = (statuses @ map (\<lambda>y. genStatus h (calculateDRName h y)
                                  (if ign y then IgnoredMissingDR else Running)) hosts,
              None)"
  using assms
proof (induction hosts arbitrary: statuses)
  case Nil
  then show ?case by simp
next
  case (Cons y rest)
  then have rest: "GetStatus_loop rest h w acc
      = (acc @ map (\<lambda>y. genStatus h (calculateDRName h y)
                        (if ign y then IgnoredMissingDR else Running)) rest, None)" for acc
    by simp
  show ?case
  proof (cases "ign y")
    case True
    with Cons.prems show ?thesis
      by (simp add: rest IsNotFound_def StringSliceContains_def)
  next
    case False
    with Cons.prems obtain d where
      "client_Get w \<lparr>nn_Namespace = Namespace h, nn_Name = calculateDRName h y\<rparr> = Inr d"
      by auto
    with False show ?thesis
      by (simp add: rest)
  qed
qed

text \<open>
  C3 (amended).  Take a host whose override object does not exist and whose baseline lacks
  the default-version subset, and a \<open>Handle\<close> call that visits every host (it returns
  success or the zero-active-hosts error).  The call appends the host to the ignored list
  once for each of its occurrences in \<open>ServiceHosts\<close>: exactly once on a fresh instance that
  lists the host once.  The list is never deduplicated: a repeated \<open>Handle\<close> call on the same
  instance appends the host again.  Once \<open>Handle\<close> has run, \<open>GetStatus\<close> reports every
  configured host once, the hosts of this kind as \<open>IgnoredMissing\<close> and the others as
  \<open>Running\<close>.
\<close>

theorem ignored_host_per_Handle:
  assumes "Handle h w = (r, h1, w1)"
    and "r = None \<or> r = Some (Errorf ''no base destination rules were found for subset: %s'')"
    and "ignorable h w x"
  shows "count_list (ignoredMissing h1) x
           = count_list (ignoredMissing h) x + count_list (ServiceHosts h) x
       \<and> GetStatus h1 w1
           = (map (\<lambda>y. genStatus h (calculateDRName h y)
                          (if ignorable h w y then IgnoredMissingDR else Running))
                (ServiceHosts h),
              None)
       \<and> (\<exists>h2 w2. Handle h1 w1 = (r, h2, w2)
             \<and> count_list (ignoredMissing h2) x
                 = count_list (ignoredMissing h1) x + count_list (ServiceHosts h) x)"
proof -
  let ?hosts = "ServiceHosts h"
  let ?key = "\<lambda>y. \<lparr>nn_Namespace = Namespace h, nn_Name = calculateDRName h y\<rparr>"
  from assms(1,2) have loop: "Handle_loop ?hosts h w = (None, h1, w1)"
    by (rule Handle_loop_complete)
  from Handle_loop_again [OF loop grown_refl]
  obtain ign new where h1: "h1 = h\<lparr>ignoredMissing := ignoredMissing h @ ign,
        activeHosts := activeHosts h @ new\<rparr>"
    and g1: "grown h w w1"
    and ign: "ign = filter (ignorable h w) ?hosts"
    and new: "new = filter (\<lambda>x. \<not> ignorable h w x) ?hosts"
    and found: "\<forall>y\<in>set ?hosts. \<not> ignorable h w y \<longrightarrow> (\<exists>d. client_Get w1 (?key y) = Inr d)"
    by auto
  have count1: "count_list (ignoredMissing h1) x
      = count_list (ignoredMissing h) x + count_list ?hosts x"
    using assms(3) by (simp add: h1 ign count_list_filter)
  have "\<forall>y\<in>set ?hosts.
          (if ignorable h w y
           then client_Get w1 \<lparr>nn_Namespace = Namespace h1, nn_Name = calculateDRName h1 y\<rparr>
                  = Inl NotFound \<and> y \<in> set (ignoredMissing h1)
           else \<exists>d. client_Get w1 \<lparr>nn_Namespace = Namespace h1, nn_Name = calculateDRName h1 y\<rparr>
                  = Inr d)"
  proof
    fix y
    assume y: "y \<in> set ?hosts"
    have "client_Get w1 (?key y) = Inl NotFound" if "ignorable h w y"
      using that grown_ignorable [OF g1, of y] by (simp add: ignorable_def)
    with y found show "if ignorable h w y
           then client_Get w1 \<lparr>nn_Namespace = Namespace h1, nn_Name = calculateDRName h1 y\<rparr>
                  = Inl NotFound \<and> y \<in> set (ignoredMissing h1)
           else \<exists>d. client_Get w1 \<lparr>nn_Namespace = Namespace h1, nn_Name = calculateDRName h1 y\<rparr>
                  = Inr d"
      by (simp add: h1 ign)
  qed
  then have "GetStatus_loop ?hosts h1 w1 []
      = ([] @ map (\<lambda>y. genStatus h1 (calculateDRName h1 y)
                        (if ignorable h w y then IgnoredMissingDR else Running)) ?hosts, None)"
    by (rule GetStatus_loop_settled)
  then have status: "GetStatus h1 w1
      = (map (\<lambda>y. genStatus h (calculateDRName h y)
                     (if ignorable h w y then IgnoredMissingDR else Running)) ?hosts, None)"
    by (simp add: GetStatus_def h1 genStatus_def)
  from Handle_second_call [OF assms(1)] loop
  obtain ign2 new2 se' where second: "Handle h1 w1
      = (r, h\<lparr>ignoredMissing := ignoredMissing h1 @ ign2, activeHosts := activeHosts h1 @ new2\<rparr>,
         w1\<lparr>status_entries := se'\<rparr>)"
    and "ign2 = filter (ignorable h w) ?hosts"
    by blast
  then have "count_list (ignoredMissing
        (h\<lparr>ignoredMissing := ignoredMissing h1 @ ign2, activeHosts := activeHosts h1 @ new2\<rparr>)) x
      = count_list (ignoredMissing h1) x + count_list ?hosts x"
    using assms(3) by (simp add: count_list_filter)
  with second count1 status show ?thesis
    by blast
qed

text \<open>Witness: in the scenario \<open>orders\<close> is such a host.  After \<open>Handle\<close> it is on the ignored
  list once, and \<open>GetStatus\<close> reports \<open>payments\<close> running and \<open>orders\<close> ignored.\<close>

theorem ignored_host_per_Handle_witness:
  "ignorable scenario_handler scenario_cluster ''orders''
   \<and> fst (Handle scenario_handler scenario_cluster) = None
   \<and> count_list (ignoredMissing (fst (snd (Handle scenario_handler scenario_cluster)))) ''orders''
       = 1
   \<and> GetStatus (fst (snd (Handle scenario_handler scenario_cluster)))
       (snd (snd (Handle scenario_handler scenario_cluster)))
       = ([\<lparr>rs_Name = ''env-payments'', rs_Namespace = ''ns'', rs_Status = Running\<rparr>,
           \<lparr>rs_Name = ''env-orders'', rs_Namespace = ''ns'', rs_Status = IgnoredMissingDR\<rparr>],
          None)"
proof -
  let ?first = "Handle scenario_handler scenario_cluster"
  have call: "?first = (fst ?first, fst (snd ?first), snd (snd ?first))"
    by simp
  have r: "fst ?first = None"
    by (simp add: scenario_defs)
  then have ok: "fst ?first = None
      \<or> fst ?first = Some (Errorf ''no base destination rules were found for subset: %s'')"
    by simp
  have orders: "ignorable scenario_handler scenario_cluster ''orders''"
    by (simp add: scenario_defs)
  have payments: "\<not> ignorable scenario_handler scenario_cluster ''payments''"
    by (simp add: scenario_defs)
  from ignored_host_per_Handle [OF call ok orders] orders payments r show ?thesis
    by (simp add: scenario_handler_def genStatus_def calculateDRName_def)
qed

text \<open>Counterexample to C3 as stated: in the scenario, a second \<open>Handle\<close> call on the same
  instance leaves \<open>orders\<close> on the ignored list twice.\<close>

theorem ignored_host_accumulates:
  "ignorable scenario_handler scenario_cluster ''orders''
   \<and> ignoredMissing (fst (snd (Handle_again scenario_handler scenario_cluster)))
       = [''orders'', ''orders'']"
  by (simp add: scenario_defs)

end
